theory Spec2Isabelle
  imports Main
begin

section \<open>The process and its surroundings\<close>

text \<open>
  The shell of \<^verbatim>\<open>lsh.c\<close> is a sequential C program whose every interesting step talks
  to the operating system.  The embedding threads one value of type \<open>world\<close> through
  the C functions.  It holds what the program can observe or change:
  \<^item> \<open>stdin\<close>: the characters still to be read from standard input; once the list is
    empty \<^verbatim>\<open>getchar\<close> answers \<^verbatim>\<open>EOF\<close>;
  \<^item> \<open>stdout\<close>, \<open>stderr\<close>: what was written so far, one entry for each call of
    \<^verbatim>\<open>printf\<close>, \<^verbatim>\<open>fprintf\<close> or \<^verbatim>\<open>perror\<close>;
  \<^item> \<open>cwd\<close>: the working directory, and \<open>chdir_result\<close>, the answer of the system to
    \<^verbatim>\<open>chdir\<close> from a given directory (\<open>Inl\<close> the error text, \<open>Inr\<close> the new directory);
  \<^item> \<open>alloc_ok\<close>, \<open>alloc_count\<close>: whether the n-th call of \<^verbatim>\<open>malloc\<close> or
    \<^verbatim>\<open>realloc\<close> succeeds, and how many calls were made;
  \<^item> \<open>fork_outcomes\<close>, \<open>fork_count\<close>: what the n-th call of \<^verbatim>\<open>fork\<close> leads to, and
    how many calls were made;
  \<^item> \<open>environ\<close>: the answer of \<^verbatim>\<open>getenv\<close>;
  \<^item> \<open>files\<close>: the contents of the files that can be opened for reading, by path;
  \<^item> \<open>append_ok\<close>, \<open>appended\<close>: whether a file can be opened for appending, and what
    was written to such files so far, as pairs of path and text;
  \<^item> \<open>proc_dir\<close>: the entry names of \<^verbatim>\<open>/proc\<close>, if it can be opened;
  \<^item> \<open>clock\<close>: the text \<^verbatim>\<open>ctime\<close> gives for the current time;
  \<^item> \<open>stack_input_pw\<close>, \<open>stack_enc_str_pw\<close>: the bytes that the arrays \<^verbatim>\<open>input_pw\<close> and
    \<^verbatim>\<open>enc_str_pw\<close> of \<^verbatim>\<open>login\<close> hold when the function is entered; it reads them
    without having set them;
  \<^item> \<open>sprintf_self\<close>: what \<^verbatim>\<open>sprintf(b, "%s%d", b, n)\<close> leaves in \<^verbatim>\<open>b\<close>, given the
    string in \<^verbatim>\<open>b\<close> and \<^verbatim>\<open>n\<close>: source and destination overlap, and the C library
    decides.

  What the embedding takes for granted: the input is a finite sequence of characters;
  \<^verbatim>\<open>waitpid\<close> on the own child does not fail; of what a child does, only the error
  report of a failed \<^verbatim>\<open>execvp\<close> and the status values it gives to \<^verbatim>\<open>waitpid\<close> are
  seen; \<^verbatim>\<open>free\<close> and the terminal settings of \<^verbatim>\<open>getch\<close> leave the world as it is.
  The status of a child is kept as what the macros of \<^verbatim>\<open>sys/wait.h\<close> tell about it.
\<close>

datatype wstatus = WExited nat | WSignaled nat | WStopped nat

text \<open>
  What a call of \<^verbatim>\<open>fork\<close> leads to.  \<open>ForkError e\<close>: no child, \<^verbatim>\<open>errno\<close> reads \<open>e\<close>.
  \<open>ForkChild (ExecError e)\<close>: the child exists and its \<^verbatim>\<open>execvp\<close> fails with \<open>e\<close>.
  \<open>ForkChild (ExecRuns evs)\<close>: the child runs the program, and \<open>evs\<close> are the status
  values that successive calls of \<^verbatim>\<open>waitpid\<close> with \<^verbatim>\<open>WUNTRACED\<close> report for it; after
  the last one \<^verbatim>\<open>waitpid\<close> blocks for ever.
\<close>

datatype child = ExecError string | ExecRuns "wstatus list"

datatype fork_outcome = ForkError string | ForkChild child

record world =
  stdin :: "char list"
  stdout :: "string list"
  stderr :: "string list"
  cwd :: string
  chdir_result :: "string \<Rightarrow> string \<Rightarrow> string + string"
  alloc_ok :: "nat \<Rightarrow> bool"
  alloc_count :: nat
  fork_outcomes :: "nat \<Rightarrow> fork_outcome"
  fork_count :: nat
  environ :: "string \<Rightarrow> string option"
  files :: "string \<Rightarrow> string option"
  append_ok :: "string \<Rightarrow> bool"
  appended :: "(string \<times> string) list"
  proc_dir :: "string list option"
  clock :: string
  stack_input_pw :: string
  stack_enc_str_pw :: string
  sprintf_self :: "string \<Rightarrow> int \<Rightarrow> string"

text \<open>
  How a C function ends: it returns a value, it ends the process through \<^verbatim>\<open>exit\<close>, it
  never comes back (\<open>Hangs\<close>), or it leaves the behaviour the C standard defines
  (\<open>Undefined\<close>: signed overflow, an access outside an array, a read of a variable
  never assigned).  Each carries the world as it is at that moment.
\<close>

datatype 'a outcome =
  Returns 'a world
| Exits int world
| Hangs world
| Undefined world

definition EXIT_SUCCESS :: int where "EXIT_SUCCESS = 0"
definition EXIT_FAILURE :: int where "EXIT_FAILURE = 1"
definition INT_MAX :: int where "INT_MAX = 2147483647"

definition NUL :: char where "NUL = CHR 0x00"
definition newline :: char where "newline = CHR 0x0A"

text \<open>The loop status of the shell: \<^verbatim>\<open>1\<close> to go on, \<^verbatim>\<open>0\<close> to stop.\<close>

definition Continue :: int where "Continue = 1"
definition Terminate :: int where "Terminate = 0"

definition printf :: "string \<Rightarrow> world \<Rightarrow> world" where
  "printf s w = w\<lparr>stdout := stdout w @ [s]\<rparr>"

definition fprintf_stderr :: "string \<Rightarrow> world \<Rightarrow> world" where
  "fprintf_stderr s w = w\<lparr>stderr := stderr w @ [s]\<rparr>"

text \<open>\<^verbatim>\<open>perror(s)\<close> writes \<^verbatim>\<open>s\<close>, a colon, the text of \<^verbatim>\<open>errno\<close> and a newline.\<close>

definition perror :: "string \<Rightarrow> string \<Rightarrow> world \<Rightarrow> world" where
  "perror s e w = w\<lparr>stderr := stderr w @ [s @ '': '' @ e @ [newline]]\<rparr>"


section \<open>The builtin commands\<close>

text \<open>
  An argument vector \<^verbatim>\<open>char **args\<close> ending in \<^verbatim>\<open>NULL\<close> is the list of its strings:
  \<^verbatim>\<open>args[0] == NULL\<close> is \<open>args = []\<close>, and \<^verbatim>\<open>args[1] == NULL\<close> for a vector with a first
  entry is \<open>tl args = []\<close>.  A C string is the list of its characters before the
  terminating \<^verbatim>\<open>NUL\<close>, so that \<^verbatim>\<open>strcmp(a, b) == 0\<close> is \<open>a = b\<close>.
\<close>

definition builtin_str :: "string list" where
  "builtin_str = [''cd'', ''help'', ''exit'']"

definition lsh_num_builtins :: nat where
  "lsh_num_builtins = length builtin_str"

definition cd_usage :: string where
  "cd_usage = ''lsh: expected argument to '' @ [CHR 0x22] @ ''cd'' @ [CHR 0x22, newline]"

definition lsh_cd :: "string list \<Rightarrow> world \<Rightarrow> int outcome" where
  "lsh_cd args w =
     (if tl args = [] then Returns 1 (fprintf_stderr cd_usage w)
      else (case chdir_result w (cwd w) (args ! 1) of
              Inl e \<Rightarrow> Returns 1 (perror ''lsh'' e w)
            | Inr d \<Rightarrow> Returns 1 (w\<lparr>cwd := d\<rparr>)))"

definition lsh_help :: "string list \<Rightarrow> world \<Rightarrow> int outcome" where
  "lsh_help args w =
     Returns 1
       (printf (''Use the man command for information on other programs.'' @ [newline])
         (fold (\<lambda>i. printf (''  '' @ builtin_str ! i @ [newline])) [0..<lsh_num_builtins]
           (printf (''The following are built in:'' @ [newline])
             (printf (''Type program names and arguments, and hit enter.'' @ [newline])
               (printf (''Stephen Brennan's LSH'' @ [newline]) w)))))"

definition lsh_exit :: "string list \<Rightarrow> world \<Rightarrow> int outcome" where
  "lsh_exit args w = Returns 0 w"

definition builtin_func :: "(string list \<Rightarrow> world \<Rightarrow> int outcome) list" where
  "builtin_func = [lsh_cd, lsh_help, lsh_exit]"


section \<open>Launching a program\<close>

definition WIFEXITED :: "wstatus \<Rightarrow> bool" where
  "WIFEXITED s = (case s of WExited _ \<Rightarrow> True | _ \<Rightarrow> False)"

definition WIFSIGNALED :: "wstatus \<Rightarrow> bool" where
  "WIFSIGNALED s = (case s of WSignaled _ \<Rightarrow> True | _ \<Rightarrow> False)"

text \<open>
  The loop \<^verbatim>\<open>do { waitpid(pid, &status, WUNTRACED); } while (!WIFEXITED(status) &&
  !WIFSIGNALED(status));\<close> over the status values the child will report.  Its result is the
  value of \<^verbatim>\<open>status\<close> when the loop is left.
\<close>

fun wait_loop :: "wstatus list \<Rightarrow> world \<Rightarrow> wstatus outcome" where
  "wait_loop [] w = Hangs w"
| "wait_loop (status # evs) w =
     (if \<not> WIFEXITED status \<and> \<not> WIFSIGNALED status then wait_loop evs w
      else Returns status w)"

text \<open>A status with which the loop ends: the child has exited or was killed by a signal.\<close>

definition terminal :: "wstatus \<Rightarrow> bool" where
  "terminal s = (WIFEXITED s \<or> WIFSIGNALED s)"

text \<open>
  The branch \<^verbatim>\<open>pid == 0\<close> of \<^verbatim>\<open>lsh_launch\<close> runs in the child.  When \<^verbatim>\<open>execvp\<close> fails
  the child reports the error and calls \<^verbatim>\<open>exit(EXIT_FAILURE)\<close>, which its parent sees as
  one status value; otherwise the child is the program from then on.
\<close>

definition child_events :: "child \<Rightarrow> wstatus list" where
  "child_events c =
     (case c of ExecError e \<Rightarrow> [WExited (nat EXIT_FAILURE)] | ExecRuns evs \<Rightarrow> evs)"

definition child_reports :: "child \<Rightarrow> world \<Rightarrow> world" where
  "child_reports c w = (case c of ExecError e \<Rightarrow> perror ''lsh'' e w | ExecRuns evs \<Rightarrow> w)"

text \<open>
  A call of \<^verbatim>\<open>fork\<close> whose child, if there is one, comes to an end: it reports a
  terminal status at some time.
\<close>

definition completes :: "fork_outcome \<Rightarrow> bool" where
  "completes f =
     (case f of ForkError e \<Rightarrow> True | ForkChild c \<Rightarrow> list_ex terminal (child_events c))"

definition fork :: "world \<Rightarrow> fork_outcome \<times> world" where
  "fork w = (fork_outcomes w (fork_count w), w\<lparr>fork_count := Suc (fork_count w)\<rparr>)"

definition lsh_launch :: "string list \<Rightarrow> world \<Rightarrow> int outcome" where
  "lsh_launch args w =
     (case fork w of
        (ForkError e, w1) \<Rightarrow> Returns 1 (perror ''lsh'' e w1)
      | (ForkChild c, w1) \<Rightarrow>
          (case wait_loop (child_events c) (child_reports c w1) of
             Returns status w2 \<Rightarrow> Returns 1 w2
           | Exits n w2 \<Rightarrow> Exits n w2
           | Hangs w2 \<Rightarrow> Hangs w2
           | Undefined w2 \<Rightarrow> Undefined w2))"


section \<open>The dispatcher\<close>

text \<open>
  The loop \<^verbatim>\<open>for (i = 0; i < lsh_num_builtins(); i++)\<close> of \<^verbatim>\<open>lsh_execute\<close>, over the
  indices still to be tried; after the last one the command is launched.
\<close>

fun search_builtins :: "nat list \<Rightarrow> string list \<Rightarrow> world \<Rightarrow> int outcome" where
  "search_builtins [] args w = lsh_launch args w"
| "search_builtins (i # js) args w =
     (if hd args = builtin_str ! i then (builtin_func ! i) args w
      else search_builtins js args w)"

definition lsh_execute :: "string list \<Rightarrow> world \<Rightarrow> int outcome" where
  "lsh_execute args w =
     (if args = [] then Returns 1 w
      else search_builtins [0..<lsh_num_builtins] args w)"


section \<open>Memory blocks\<close>

text \<open>
  An array obtained from \<^verbatim>\<open>malloc\<close> is the list of its cells; a cell is \<open>None\<close> until
  the program has stored a value in it.  \<^verbatim>\<open>realloc\<close> to a larger size keeps the cells
  and adds fresh ones.  Sizes are counted in cells.
\<close>

definition malloc :: "nat \<Rightarrow> world \<Rightarrow> 'a option list option \<times> world" where
  "malloc n w =
     (if alloc_ok w (alloc_count w) then Some (replicate n None) else None,
      w\<lparr>alloc_count := Suc (alloc_count w)\<rparr>)"

definition realloc :: "'a option list \<Rightarrow> nat \<Rightarrow> world \<Rightarrow> 'a option list option \<times> world" where
  "realloc p n w =
     (if alloc_ok w (alloc_count w) then Some (take n p @ replicate (n - length p) None) else None,
      w\<lparr>alloc_count := Suc (alloc_count w)\<rparr>)"

text \<open>\<^verbatim>\<open>p[i] = v\<close> for a C \<^verbatim>\<open>int\<close> index: outside the array there is no defined result.\<close>

definition store :: "'a option list \<Rightarrow> int \<Rightarrow> 'a \<Rightarrow> 'a option list option" where
  "store p i v = (if 0 \<le> i \<and> i < int (length p) then Some (p[nat i := Some v]) else None)"

text \<open>
  Reading an array up to its terminator \<open>z\<close>, as every consumer of a C string or of an
  argument vector does: the values before the first \<open>z\<close>.  There is no defined result
  when a cell never written, or the end of the array, comes first.
\<close>

fun terminated :: "'a \<Rightarrow> 'a option list \<Rightarrow> 'a list option" where
  "terminated z [] = None"
| "terminated z (None # cells) = None"
| "terminated z (Some x # cells) =
     (if x = z then Some [] else map_option ((#) x) (terminated z cells))"

definition c_str :: "char option list \<Rightarrow> string option" where
  "c_str buffer = terminated NUL buffer"

definition argv :: "string option option list \<Rightarrow> string list option" where
  "argv tokens = map_option (map the) (terminated None tokens)"


section \<open>The line reader\<close>

text \<open>
  \<^verbatim>\<open>lsh_read_line\<close> is taken as it compiles without \<^verbatim>\<open>LSH_USE_STD_GETLINE\<close>: the
  branch with the buffer of its own.  The buffer it returns is read by its caller as a
  C string (\<open>c_str\<close>).
\<close>

definition getchar :: "world \<Rightarrow> char option \<times> world" where
  "getchar w = (case stdin w of [] \<Rightarrow> (None, w) | c # cs \<Rightarrow> (Some c, w\<lparr>stdin := cs\<rparr>))"

definition LSH_RL_BUFSIZE :: int where "LSH_RL_BUFSIZE = 1024"

definition alloc_error :: string where
  "alloc_error = ''lsh: allocation error'' @ [newline]"

text \<open>
  The loop \<^verbatim>\<open>while (1)\<close> of \<^verbatim>\<open>lsh_read_line\<close>, from the state of its variables
  \<^verbatim>\<open>buffer\<close>, \<^verbatim>\<open>position\<close> and \<^verbatim>\<open>bufsize\<close>.  The last two are C \<^verbatim>\<open>int\<close>s: an
  increment beyond \<open>INT_MAX\<close> has no defined result.
\<close>

function read_loop ::
  "char option list \<Rightarrow> int \<Rightarrow> int \<Rightarrow> world \<Rightarrow> char option list outcome" where
  "read_loop buffer position bufsize w =
     (case getchar w of
        (None, w1) \<Rightarrow> Exits EXIT_SUCCESS w1
      | (Some c, w1) \<Rightarrow>
          if c = newline then
            (case store buffer position NUL of
               None \<Rightarrow> Undefined w1
             | Some buffer1 \<Rightarrow> Returns buffer1 w1)
          else
            (case store buffer position c of
               None \<Rightarrow> Undefined w1
             | Some buffer1 \<Rightarrow>
                 if position + 1 > INT_MAX then Undefined w1
                 else if position + 1 \<ge> bufsize then
                   (if bufsize + LSH_RL_BUFSIZE > INT_MAX then Undefined w1
                    else (case realloc buffer1 (nat (bufsize + LSH_RL_BUFSIZE)) w1 of
                            (None, w2) \<Rightarrow> Exits EXIT_FAILURE (fprintf_stderr alloc_error w2)
                          | (Some buffer2, w2) \<Rightarrow>
                              read_loop buffer2 (position + 1) (bufsize + LSH_RL_BUFSIZE) w2))
                 else read_loop buffer1 (position + 1) bufsize w1))"
  by pat_completeness auto
termination
  by (relation "measure (\<lambda>(buffer, position, bufsize, w). length (stdin w))")
     (auto simp: getchar_def realloc_def split: list.splits if_splits)

declare read_loop.simps [simp del]

definition lsh_read_line :: "world \<Rightarrow> char option list outcome" where
  "lsh_read_line w =
     (case malloc (nat LSH_RL_BUFSIZE) w of
        (None, w1) \<Rightarrow> Exits EXIT_FAILURE (fprintf_stderr alloc_error w1)
      | (Some buffer, w1) \<Rightarrow> read_loop buffer 0 LSH_RL_BUFSIZE w1)"


section \<open>The tokenizer\<close>

definition LSH_TOK_BUFSIZE :: int where "LSH_TOK_BUFSIZE = 64"

definition LSH_TOK_DELIM :: string where
  "LSH_TOK_DELIM = [CHR 0x20, CHR 0x09, CHR 0x0D, CHR 0x0A, CHR 0x07]"

text \<open>
  \<^verbatim>\<open>strtok\<close> on the characters from its saved position to the end of the string: it
  skips the delimiters in front; when nothing is left it answers \<^verbatim>\<open>NULL\<close>; otherwise the
  token is the run of characters up to the next delimiter, which it overwrites, and the
  saved position is behind that delimiter.  The result is the token and the characters
  from the new saved position on.
\<close>

definition strtok :: "string \<Rightarrow> string \<Rightarrow> string option \<times> string" where
  "strtok s delim =
     (let s1 = dropWhile (\<lambda>c. c \<in> set delim) s in
      if s1 = [] then (None, [])
      else (Some (takeWhile (\<lambda>c. c \<notin> set delim) s1),
            drop 1 (dropWhile (\<lambda>c. c \<notin> set delim) s1)))"

lemma strtok_shorter:
  "strtok s delim = (Some t, saved) \<Longrightarrow> length saved < length s"
proof -
  assume a: "strtok s delim = (Some t, saved)"
  define s1 where "s1 = dropWhile (\<lambda>c. c \<in> set delim) s"
  from a have ne: "s1 \<noteq> []" and sv: "saved = drop 1 (dropWhile (\<lambda>c. c \<notin> set delim) s1)"
    by (auto simp: strtok_def s1_def Let_def split: if_splits)
  have "length (dropWhile (\<lambda>c. c \<notin> set delim) s1) \<le> length s1"
    by (rule length_dropWhile_le)
  moreover have "length s1 \<le> length s"
    unfolding s1_def by (rule length_dropWhile_le)
  moreover have "0 < length s1" using ne by simp
  ultimately show ?thesis using sv by (cases "dropWhile (\<lambda>c. c \<notin> set delim) s1") auto
qed

text \<open>
  The loop \<^verbatim>\<open>while (token != NULL)\<close> of \<^verbatim>\<open>lsh_split_line\<close> and the store of the final
  \<^verbatim>\<open>NULL\<close>, from the state of \<^verbatim>\<open>token\<close>, of \<^verbatim>\<open>strtok\<close>'s saved position, and of
  \<^verbatim>\<open>tokens\<close>, \<^verbatim>\<open>position\<close> and \<^verbatim>\<open>bufsize\<close>.  A cell of \<^verbatim>\<open>tokens\<close> holds \<^verbatim>\<open>NULL\<close>
  (\<open>None\<close>) or a token.  A token is kept as its string; in the C source it is a
  pointer into the line, which \<^verbatim>\<open>strtok\<close> has cut in place.
\<close>

function split_loop ::
  "string option \<Rightarrow> string \<Rightarrow> string option option list \<Rightarrow> int \<Rightarrow> int \<Rightarrow> world
     \<Rightarrow> string option option list outcome" where
  "split_loop token saved tokens position bufsize w =
     (case token of
        None \<Rightarrow>
          (case store tokens position None of
             None \<Rightarrow> Undefined w
           | Some tokens1 \<Rightarrow> Returns tokens1 w)
      | Some t \<Rightarrow>
          (case store tokens position (Some t) of
             None \<Rightarrow> Undefined w
           | Some tokens1 \<Rightarrow>
               if position + 1 > INT_MAX then Undefined w
               else if position + 1 \<ge> bufsize then
                 (if bufsize + LSH_TOK_BUFSIZE > INT_MAX then Undefined w
                  else (case realloc tokens1 (nat (bufsize + LSH_TOK_BUFSIZE)) w of
                          (None, w1) \<Rightarrow> Exits EXIT_FAILURE (fprintf_stderr alloc_error w1)
                        | (Some tokens2, w1) \<Rightarrow>
                            (case strtok saved LSH_TOK_DELIM of
                               (token', saved') \<Rightarrow>
                                 split_loop token' saved' tokens2 (position + 1)
                                   (bufsize + LSH_TOK_BUFSIZE) w1)))
               else (case strtok saved LSH_TOK_DELIM of
                       (token', saved') \<Rightarrow>
                         split_loop token' saved' tokens1 (position + 1) bufsize w)))"
  by pat_completeness auto
termination
  by (relation "measure (\<lambda>(token, saved, tokens, position, bufsize, w).
                   case token of None \<Rightarrow> 0 | Some t \<Rightarrow> Suc (length saved))")
     (auto split: option.splits dest: strtok_shorter [OF sym])

declare split_loop.simps [simp del]

definition lsh_split_line :: "char option list \<Rightarrow> world \<Rightarrow> string option option list outcome" where
  "lsh_split_line line w =
     (case malloc (nat LSH_TOK_BUFSIZE) w of
        (None, w1) \<Rightarrow> Exits EXIT_FAILURE (fprintf_stderr alloc_error w1)
      | (Some tokens, w1) \<Rightarrow>
          (case c_str line of
             None \<Rightarrow> Undefined w1
           | Some s \<Rightarrow>
               (case strtok s LSH_TOK_DELIM of
                  (token, saved) \<Rightarrow> split_loop token saved tokens 0 LSH_TOK_BUFSIZE w1)))"


text \<open>
  The tokenizer as the specification words it, to compare \<^verbatim>\<open>lsh_split_line\<close> with:
  \<open>pieces\<close> cuts a line at every delimiter, and \<open>spec_split\<close> keeps the pieces that
  are not empty, in their order, so that a run of delimiters separates like a single
  one and a blank line has no tokens.
\<close>

fun pieces :: "string \<Rightarrow> string list" where
  "pieces [] = [[]]"
| "pieces (c # cs) =
     (if c \<in> set LSH_TOK_DELIM then [] # pieces cs
      else (c # hd (pieces cs)) # tl (pieces cs))"

definition spec_split :: "string \<Rightarrow> string list" where
  "spec_split s = filter (\<lambda>t. t \<noteq> []) (pieces s)"


section \<open>The interactive loop\<close>

text \<open>
  Each turn of the loop reads at least the line terminator from standard input, and
  neither the tokenizer nor the dispatcher reads from it: the loop ends on every finite
  input.
\<close>

lemma read_loop_eof:
  "stdin w = [] \<Longrightarrow> read_loop buffer position bufsize w = Exits EXIT_SUCCESS w"
  by (simp add: read_loop.simps [of buffer position bufsize w] getchar_def)

lemma read_loop_newline:
  "stdin w = newline # cs \<Longrightarrow>
     read_loop buffer position bufsize w =
       (case store buffer position NUL of
          None \<Rightarrow> Undefined (w\<lparr>stdin := cs\<rparr>)
        | Some buffer1 \<Rightarrow> Returns buffer1 (w\<lparr>stdin := cs\<rparr>))"
  by (simp add: read_loop.simps [of buffer position bufsize w] getchar_def)

lemma read_loop_char:
  "stdin w = c # cs \<Longrightarrow> c \<noteq> newline \<Longrightarrow>
     read_loop buffer position bufsize w =
       (case store buffer position c of
          None \<Rightarrow> Undefined (w\<lparr>stdin := cs\<rparr>)
        | Some buffer1 \<Rightarrow>
            if position + 1 > INT_MAX then Undefined (w\<lparr>stdin := cs\<rparr>)
            else if position + 1 \<ge> bufsize then
              (if bufsize + LSH_RL_BUFSIZE > INT_MAX then Undefined (w\<lparr>stdin := cs\<rparr>)
               else if alloc_ok w (alloc_count w) then
                 read_loop
                   (take (nat (bufsize + LSH_RL_BUFSIZE)) buffer1 @
                    replicate (nat (bufsize + LSH_RL_BUFSIZE) - length buffer1) None)
                   (position + 1) (bufsize + LSH_RL_BUFSIZE)
                   (w\<lparr>stdin := cs, alloc_count := Suc (alloc_count w)\<rparr>)
               else Exits EXIT_FAILURE
                      (fprintf_stderr alloc_error
                         (w\<lparr>stdin := cs, alloc_count := Suc (alloc_count w)\<rparr>)))
            else read_loop buffer1 (position + 1) bufsize (w\<lparr>stdin := cs\<rparr>))"
  by (simp add: read_loop.simps [of buffer position bufsize w] getchar_def realloc_def
           split: option.splits)

lemma read_loop_stdin:
  "read_loop buffer position bufsize w = Returns line w' \<Longrightarrow>
     length (stdin w') < length (stdin w)"
proof (induction "stdin w" arbitrary: buffer position bufsize w)
  case Nil
  then show ?case by (simp add: read_loop_eof)
next
  case (Cons c cs)
  note eq = Cons.hyps(2) [symmetric]
  show ?case
  proof (cases "c = newline")
    case True
    with Cons.prems eq show ?thesis
      by (auto simp: read_loop_newline split: option.splits)
  next
    case False
    have step: "\<And>b p s v. stdin v = cs \<Longrightarrow> read_loop b p s v = Returns line w' \<Longrightarrow>
        length (stdin w') < length cs"
      using Cons.hyps(1) by blast
    from Cons.prems show ?thesis
      unfolding read_loop_char [OF eq False] eq
      by (auto split: option.splits if_splits dest!: step [rotated])
  qed
qed

lemma lsh_read_line_stdin:
  assumes "lsh_read_line w = Returns line w'"
  shows "length (stdin w') < length (stdin w)"
proof (cases "alloc_ok w (alloc_count w)")
  case True
  with assms have "read_loop (replicate (nat LSH_RL_BUFSIZE) None) 0 LSH_RL_BUFSIZE
      (w\<lparr>alloc_count := Suc (alloc_count w)\<rparr>) = Returns line w'"
    by (simp add: lsh_read_line_def malloc_def)
  from read_loop_stdin [OF this] show ?thesis by simp
next
  case False
  with assms show ?thesis by (simp add: lsh_read_line_def malloc_def)
qed

lemma split_loop_stdin:
  "split_loop token saved tokens position bufsize w = Returns tokens' w' \<Longrightarrow>
     stdin w' = stdin w"
proof (induction token saved tokens position bufsize w rule: split_loop.induct)
  case (1 token saved tokens position bufsize w)
  from "1.prems" "1.IH" show ?case
    by (auto simp: split_loop.simps [of token saved tokens position bufsize w] realloc_def
             split: option.splits if_splits prod.splits)
qed

lemma lsh_split_line_stdin:
  "lsh_split_line line w = Returns tokens w' \<Longrightarrow> stdin w' = stdin w"
  by (auto simp: lsh_split_line_def malloc_def
           split: if_splits option.splits prod.splits dest!: split_loop_stdin)

lemma wait_loop_world: "wait_loop evs w = Returns status w' \<Longrightarrow> w' = w"
  by (induction evs) (auto split: if_splits)

lemma lsh_launch_stdin: "lsh_launch args w = Returns r w' \<Longrightarrow> stdin w' = stdin w"
  by (auto simp: lsh_launch_def fork_def perror_def child_reports_def
           split: fork_outcome.splits outcome.splits child.splits dest!: wait_loop_world)

lemma search_builtins_stdin:
  "set js \<subseteq> {0, 1, 2} \<Longrightarrow> search_builtins js args w = Returns r w' \<Longrightarrow> stdin w' = stdin w"
proof (induction js)
  case Nil
  then show ?case by (auto dest: lsh_launch_stdin)
next
  case (Cons i js)
  then show ?case
    by (auto simp: builtin_func_def lsh_cd_def lsh_help_def lsh_exit_def lsh_num_builtins_def
                   builtin_str_def printf_def fprintf_stderr_def perror_def
             split: if_splits sum.splits)
qed

lemma lsh_execute_stdin:
  assumes "lsh_execute args w = Returns r w'"
  shows "stdin w' = stdin w"
proof (cases "args = []")
  case True
  with assms show ?thesis by (simp add: lsh_execute_def)
next
  case False
  have "set [0..<lsh_num_builtins] \<subseteq> {0, 1, 2}"
    by (auto simp: lsh_num_builtins_def builtin_str_def)
  moreover from False assms
  have "search_builtins [0..<lsh_num_builtins] args w = Returns r w'"
    by (simp add: lsh_execute_def)
  ultimately show ?thesis by (rule search_builtins_stdin)
qed

function lsh_loop :: "world \<Rightarrow> unit outcome" where
  "lsh_loop w =
     (case lsh_read_line (printf ''> '' w) of
        Returns line w1 \<Rightarrow>
          (case lsh_split_line line w1 of
             Returns tokens w2 \<Rightarrow>
               (case argv tokens of
                  None \<Rightarrow> Undefined w2
                | Some args \<Rightarrow>
                    (case lsh_execute args w2 of
                       Returns status w3 \<Rightarrow>
                         if status \<noteq> 0 then lsh_loop w3 else Returns () w3
                     | Exits n w3 \<Rightarrow> Exits n w3
                     | Hangs w3 \<Rightarrow> Hangs w3
                     | Undefined w3 \<Rightarrow> Undefined w3))
           | Exits n w2 \<Rightarrow> Exits n w2
           | Hangs w2 \<Rightarrow> Hangs w2
           | Undefined w2 \<Rightarrow> Undefined w2)
      | Exits n w1 \<Rightarrow> Exits n w1
      | Hangs w1 \<Rightarrow> Hangs w1
      | Undefined w1 \<Rightarrow> Undefined w1)"
  by pat_completeness auto
termination
proof (relation "measure (\<lambda>w. length (stdin w))")
  show "wf (measure (\<lambda>w. length (stdin w)))" by simp
next
  fix w line w1 tokens w2 args status w3
  assume r: "lsh_read_line (printf ''> '' w) = Returns line w1"
    and s: "lsh_split_line line w1 = Returns tokens w2"
    and e: "lsh_execute args w2 = Returns status w3"
  have "length (stdin w1) < length (stdin (printf ''> '' w))"
    using r by (rule lsh_read_line_stdin)
  moreover have "stdin w2 = stdin w1" using s by (rule lsh_split_line_stdin)
  moreover have "stdin w3 = stdin w2" using e by (rule lsh_execute_stdin)
  ultimately show "(w3, w) \<in> measure (\<lambda>w. length (stdin w))"
    by (simp add: printf_def)
qed

declare lsh_loop.simps [simp del]


section \<open>The checks before the loop\<close>

definition seq :: "'a outcome \<Rightarrow> ('a \<Rightarrow> world \<Rightarrow> 'b outcome) \<Rightarrow> 'b outcome" where
  "seq m f =
     (case m of
        Returns x w \<Rightarrow> f x w
      | Exits n w \<Rightarrow> Exits n w
      | Hangs w \<Rightarrow> Hangs w
      | Undefined w \<Rightarrow> Undefined w)"

definition BUF_SIZE :: int where "BUF_SIZE = 1024"
definition MAX_LOGIN :: int where "MAX_LOGIN = 1"

subsection \<open>Library functions on text\<close>

definition isspace :: "char \<Rightarrow> bool" where
  "isspace c = (c \<in> set [CHR 0x20, CHR 0x09, CHR 0x0A, CHR 0x0B, CHR 0x0C, CHR 0x0D])"

text \<open>The string that an array of characters holds: its bytes before the first \<^verbatim>\<open>NUL\<close>.\<close>

definition c_string :: "char list \<Rightarrow> string" where
  "c_string bytes = takeWhile (\<lambda>c. c \<noteq> NUL) bytes"

text \<open>
  The same for an array of \<open>n\<close> bytes of which only a front part was written: without
  a \<^verbatim>\<open>NUL\<close> among the \<open>n\<close> bytes the read runs out of the array.
\<close>

definition array_string :: "nat \<Rightarrow> char list \<Rightarrow> string option" where
  "array_string n bytes =
     (if NUL \<in> set (take n bytes) then Some (c_string (take n bytes)) else None)"

text \<open>
  The conversion \<^verbatim>\<open>%s\<close> of \<^verbatim>\<open>sscanf\<close>: it skips white space and takes the run of
  other characters, and fails when the input ends first.  The result is the word and the
  input behind it.
\<close>

definition scan_word :: "string \<Rightarrow> (string \<times> string) option" where
  "scan_word s =
     (let s1 = dropWhile isspace s in
      if s1 = [] then None
      else Some (takeWhile (\<lambda>c. \<not> isspace c) s1, dropWhile (\<lambda>c. \<not> isspace c) s1))"

text \<open>The formats \<^verbatim>\<open>"%s %s"\<close> and \<^verbatim>\<open>"%s %s %s"\<close>: the words assigned, at most \<open>k\<close>.\<close>

fun scan_words :: "nat \<Rightarrow> string \<Rightarrow> string list" where
  "scan_words 0 s = []"
| "scan_words (Suc k) s =
     (case scan_word s of None \<Rightarrow> [] | Some (x, rest) \<Rightarrow> x # scan_words k rest)"

text \<open>
  The format \<^verbatim>\<open>"%s : %s"\<close>: a word, white space, a colon, white space, a word.  Each
  of the two variables is assigned or left as it was (\<open>None\<close>).
\<close>

definition scan_account :: "string \<Rightarrow> string option \<times> string option" where
  "scan_account s =
     (case scan_word s of
        None \<Rightarrow> (None, None)
      | Some (x, r1) \<Rightarrow>
          (case dropWhile isspace r1 of
             [] \<Rightarrow> (Some x, None)
           | c # r2 \<Rightarrow>
               if c = CHR '':'' then (Some x, map_option fst (scan_word r2))
               else (Some x, None)))"

text \<open>
  \<^verbatim>\<open>fgets\<close> with an array of \<open>n\<close> bytes on the rest of a stream: \<open>None\<close> at the end of
  the stream, otherwise the bytes read, which end behind the first newline or after
  \<open>n - 1\<close> bytes, and the rest of the stream.
\<close>

definition fgets :: "nat \<Rightarrow> char list \<Rightarrow> (char list \<times> char list) option" where
  "fgets n src =
     (if src = [] then None
      else (let chunk = take (n - 1) (takeWhile (\<lambda>c. c \<noteq> newline) src @
                                      take 1 (dropWhile (\<lambda>c. c \<noteq> newline) src))
            in Some (chunk, drop (length chunk) src)))"

text \<open>\<^verbatim>\<open>s[strlen(s) - 1] = '\0'\<close>: with an empty string the index is outside the array.\<close>

definition strip_last :: "string \<Rightarrow> string option" where
  "strip_last s = (if s = [] then None else Some (butlast s))"

text \<open>The conversion \<^verbatim>\<open>%d\<close>.\<close>

fun digits :: "nat \<Rightarrow> string" where
  "digits n =
     (if n < 10 then [''0123456789'' ! n]
      else digits (n div 10) @ [''0123456789'' ! (n mod 10)])"

declare digits.simps [simp del]

definition decimal :: "int \<Rightarrow> string" where
  "decimal i = (if i < 0 then CHR ''-'' # digits (nat (- i)) else digits (nat i))"

text \<open>\<^verbatim>\<open>atoi\<close> on a string of digits; a value beyond \<open>INT_MAX\<close> has no defined result.\<close>

definition atoi :: "string \<Rightarrow> int option" where
  "atoi s =
     (let v = fold (\<lambda>c v. 10 * v + (int (of_char c) - 48)) s 0
      in if v > INT_MAX then None else Some v)"

text \<open>
  \<^verbatim>\<open>time\<close>, \<^verbatim>\<open>ctime\<close> and the removal of the last character of the text, as the three
  places that write a log line do it.
\<close>

definition cur_time :: "world \<Rightarrow> string option" where
  "cur_time w = strip_last (c_string (clock w))"

subsection \<open>The log files\<close>

definition log_error :: string where
  "log_error = ''error! failed to write log'' @ [newline]"

definition store_login_log :: "string \<Rightarrow> world \<Rightarrow> unit outcome" where
  "store_login_log log w =
     (if \<not> append_ok w ''login_log'' then Exits 0 (printf log_error w)
      else Returns () (w\<lparr>appended := appended w @ [(''login_log'', log)]\<rparr>))"

definition store_failed_log :: "string \<Rightarrow> world \<Rightarrow> unit outcome" where
  "store_failed_log log w =
     (if \<not> append_ok w ''failed_log'' then Exits 0 (printf log_error w)
      else Returns () (w\<lparr>appended := appended w @ [(''failed_log'', log)]\<rparr>))"

text \<open>
  A log line is built with \<^verbatim>\<open>sprintf\<close> in an array of \<open>BUF_SIZE\<close> bytes from the time,
  a fixed text and the address.  The result is \<open>None\<close> when the time text is empty or the
  line does not fit.
\<close>

definition log_line :: "string \<Rightarrow> string \<Rightarrow> world \<Rightarrow> string option" where
  "log_line what ip_addr w =
     (case cur_time w of
        None \<Rightarrow> None
      | Some t \<Rightarrow>
          (let log = t @ what @ ip_addr @ [newline]
           in if int (length log) \<ge> BUF_SIZE then None else Some log))"

subsection \<open>The list of allowed addresses\<close>

lemma fgets_shorter: "fgets (nat BUF_SIZE) src = Some (chunk, rest) \<Longrightarrow> length rest < length src"
  by (cases src) (auto simp: fgets_def BUF_SIZE_def Let_def split: if_splits)

text \<open>
  The loop \<^verbatim>\<open>while (fgets(list_ip[i], BUF_SIZE, fp))\<close> of \<^verbatim>\<open>white_list\<close>, from the rest
  of the file and the rows filled so far.  There are \<open>BUF_SIZE\<close> rows.
\<close>

function read_list :: "char list \<Rightarrow> string list \<Rightarrow> string list option" where
  "read_list src rows =
     (case fgets (nat BUF_SIZE) src of
        None \<Rightarrow> Some rows
      | Some (chunk, rest) \<Rightarrow>
          if int (length rows) \<ge> BUF_SIZE then None
          else (case strip_last (c_string chunk) of
                  None \<Rightarrow> None
                | Some row \<Rightarrow> read_list rest (rows @ [row])))"
  by pat_completeness auto
termination
  by (relation "measure (\<lambda>(src, rows). length src)") (auto dest: fgets_shorter)

declare read_list.simps [simp del]

definition white_list :: "string \<Rightarrow> world \<Rightarrow> int outcome" where
  "white_list ip_addr w =
     (case files w ''list'' of
        None \<Rightarrow> Exits 0 (printf (''error! block all IP'' @ [newline]) w)
      | Some content \<Rightarrow>
          (case read_list content [] of
             None \<Rightarrow> Undefined w
           | Some list_ip \<Rightarrow>
               if ip_addr \<in> set list_ip then Returns 0 w
               else (let w1 = printf (''NOT ALLOWED IP'' @ [newline]) w in
                     case log_line '' NOT ALLOWED IP '' ip_addr w1 of
                       None \<Rightarrow> Undefined w1
                     | Some log \<Rightarrow> seq (store_failed_log log w1) (\<lambda>u w2. Returns 1 w2))))"

subsection \<open>The count of running shells\<close>

text \<open>
  \<^verbatim>\<open>get_pid\<close>: \<^verbatim>\<open>-1\<close> when a character is below \<^verbatim>\<open>'0'\<close> (code 48) or above \<^verbatim>\<open>'9'\<close>
  (code 57), otherwise \<^verbatim>\<open>atoi\<close> of the string.
\<close>

definition get_pid :: "string \<Rightarrow> int option" where
  "get_pid s =
     (if \<exists>c \<in> set s. of_char c < (48::nat) \<or> of_char c > (57::nat) then Some (- 1)
      else atoi s)"

definition already_running :: string where
  "already_running =
     [CHR 0xEC, CHR 0x9D, CHR 0xB4, CHR 0xEB, CHR 0xAF, CHR 0xB8, CHR 0xEC, CHR 0x8B, CHR 0xA4,
      CHR 0xED, CHR 0x96, CHR 0x89, CHR 0xEC, CHR 0xA4, CHR 0x91, CHR 0xEC, CHR 0x9E, CHR 0x85,
      CHR 0xEB, CHR 0x8B, CHR 0x88, CHR 0xEB, CHR 0x8B, CHR 0xA4, CHR ''.'', newline]"

text \<open>
  The loop \<^verbatim>\<open>while ((dir = readdir(dp)) != NULL)\<close> of \<^verbatim>\<open>check_logon\<close> over the entry
  names still to come, from the state of \<^verbatim>\<open>line\<close>, \<^verbatim>\<open>name\<close> and \<^verbatim>\<open>logon_count\<close>;
  the two arrays keep what an earlier turn left in them and are \<open>None\<close> before the first
  assignment.
\<close>

fun scan_proc ::
  "string list \<Rightarrow> string option \<Rightarrow> string option \<Rightarrow> int \<Rightarrow> string \<Rightarrow> world \<Rightarrow> int outcome" where
  "scan_proc [] line name logon_count ip_addr w = Returns 0 w"
| "scan_proc (d_name # entries) line name logon_count ip_addr w =
     (case get_pid d_name of
        None \<Rightarrow> Undefined w
      | Some pid \<Rightarrow>
          if pid = - 1 then scan_proc entries line name logon_count ip_addr w
          else (case files w (''/proc/'' @ decimal pid @ ''/status'') of
                  None \<Rightarrow> scan_proc entries line name logon_count ip_addr w
                | Some content \<Rightarrow>
                    (case (case fgets (nat BUF_SIZE) content of
                             None \<Rightarrow> line
                           | Some (chunk, rest) \<Rightarrow> Some (c_string chunk)) of
                       None \<Rightarrow> Undefined w
                     | Some line1 \<Rightarrow>
                         (case (case scan_words 2 line1 of
                                  [tag, name1] \<Rightarrow> Some name1
                                | _ \<Rightarrow> name) of
                            None \<Rightarrow> Undefined w
                          | Some name1 \<Rightarrow>
                              if name1 = ''lsh'' then
                                (if logon_count + 1 = MAX_LOGIN + 1 then
                                   (let w1 = printf already_running w in
                                    case log_line '' FULL LOGIN '' ip_addr w1 of
                                      None \<Rightarrow> Undefined w1
                                    | Some log \<Rightarrow>
                                        seq (store_failed_log log w1) (\<lambda>u w2. Returns 1 w2))
                                 else scan_proc entries (Some line1) (Some name1)
                                        (logon_count + 1) ip_addr w)
                              else scan_proc entries (Some line1) (Some name1)
                                     logon_count ip_addr w))))"

definition check_logon :: "string \<Rightarrow> world \<Rightarrow> int outcome" where
  "check_logon ip_addr w =
     (case proc_dir w of
        None \<Rightarrow> Returns (- 1) w
      | Some entries \<Rightarrow> scan_proc entries None None 0 ip_addr w)"


subsection \<open>The credentials\<close>

text \<open>
  \<^verbatim>\<open>getch\<close> reads one character with \<^verbatim>\<open>getchar\<close>, with the terminal set to pass
  characters at once and without echo, and converts the result to \<^verbatim>\<open>char\<close>: the value
  \<^verbatim>\<open>EOF\<close> becomes the byte \<^verbatim>\<open>0xFF\<close>.  The terminal settings are not part of the world.
\<close>

definition getch :: "world \<Rightarrow> char \<times> world" where
  "getch w = (case getchar w of (None, w1) \<Rightarrow> (CHR 0xFF, w1) | (Some c, w1) \<Rightarrow> (c, w1))"

text \<open>
  The loop \<^verbatim>\<open>for (i = 0; i < 11; i++)\<close> of \<^verbatim>\<open>login\<close>, from the number of turns left
  and the characters stored in \<^verbatim>\<open>input_pw\<close> so far.
\<close>

fun read_pw :: "nat \<Rightarrow> string \<Rightarrow> world \<Rightarrow> string \<times> world" where
  "read_pw 0 typed w = (typed, w)"
| "read_pw (Suc n) typed w =
     (case getch w of
        (single_pw, w1) \<Rightarrow>
          if of_char single_pw = (10::nat) then (typed, w1)
          else read_pw n (typed @ [single_pw]) w1)"

text \<open>The value of a \<^verbatim>\<open>char\<close> in arithmetic, where \<^verbatim>\<open>char\<close> is signed.\<close>

definition signed_char :: "char \<Rightarrow> int" where
  "signed_char c =
     (if of_char c < (128::nat) then int (of_char c) else int (of_char c) - 256)"

text \<open>The array \<^verbatim>\<open>enc_pw\<close>: for each character of the password its code less one, and 45.\<close>

definition enc_pw :: "string \<Rightarrow> int list" where
  "enc_pw input_pw = concat (map (\<lambda>c. [signed_char c - 1, 46 - 1]) input_pw)"

text \<open>
  The loop of \<^verbatim>\<open>sprintf(enc_str_pw, "%s%d", enc_str_pw, enc_pw[i])\<close> over the numbers
  still to come, from the string in \<^verbatim>\<open>enc_str_pw\<close>; \<open>None\<close> when there is no string in
  the array or the result leaves its \<open>2 * BUF_SIZE\<close> bytes.
\<close>

fun encode :: "int list \<Rightarrow> string option \<Rightarrow> world \<Rightarrow> string option" where
  "encode [] enc_str_pw w = enc_str_pw"
| "encode (n # ns) enc_str_pw w =
     (case enc_str_pw of
        None \<Rightarrow> None
      | Some b \<Rightarrow>
          (let b1 = sprintf_self w b n
           in if int (length b1) \<ge> 2 * BUF_SIZE then None else encode ns (Some b1) w))"

definition login_done :: string where
  "login_done =
     [newline, CHR 0xEB, CHR 0xA1, CHR 0x9C, CHR 0xEA, CHR 0xB7, CHR 0xB8, CHR 0xEC, CHR 0x9D,
      CHR 0xB8, CHR 0xEC, CHR 0x99, CHR 0x84, CHR 0xEB, CHR 0xA3, CHR 0x8C, newline]"

definition login_failed :: string where
  "login_failed =
     [newline, CHR 0xEB, CHR 0xA1, CHR 0x9C, CHR 0xEA, CHR 0xB7, CHR 0xB8, CHR 0xEC, CHR 0x9D,
      CHR 0xB8, CHR 0xEC, CHR 0x8B, CHR 0xA4, CHR 0xED, CHR 0x8C, CHR 0xA8, newline]"

text \<open>The two branches of the comparison at the end of \<^verbatim>\<open>login\<close>.\<close>

definition login_accept :: "string \<Rightarrow> world \<Rightarrow> unit outcome" where
  "login_accept ip_addr w =
     (let w1 = printf login_done w in
      case log_line '' Login at '' ip_addr w1 of
        None \<Rightarrow> Undefined w1
      | Some log \<Rightarrow> store_login_log log (printf log w1))"

definition login_reject :: "string \<Rightarrow> world \<Rightarrow> unit outcome" where
  "login_reject ip_addr w =
     (let w1 = printf login_failed w in
      case log_line '' Login failed at '' ip_addr w1 of
        None \<Rightarrow> Undefined w1
      | Some log \<Rightarrow> seq (store_failed_log log w1) (\<lambda>u w2. Exits 0 w2))"

definition login :: "string \<Rightarrow> world \<Rightarrow> unit outcome" where
  "login ip_addr w =
     (case files w ''data'' of
        None \<Rightarrow> Undefined w
      | Some content \<Rightarrow>
          (case fgets (nat BUF_SIZE) content of
             None \<Rightarrow> Undefined w
           | Some (data_account, rest) \<Rightarrow>
               (case scan_account (c_string data_account) of
                  (data_id, data_pw) \<Rightarrow>
                    (let w1 = printf ''ID : '' w in
                     case fgets (nat BUF_SIZE) (stdin w1) of
                       None \<Rightarrow> Undefined w1
                     | Some (chunk, rest_in) \<Rightarrow>
                         (case strip_last (c_string chunk) of
                            None \<Rightarrow> Undefined (w1\<lparr>stdin := rest_in\<rparr>)
                          | Some input_id \<Rightarrow>
                              (case read_pw 11 [] (printf ''PW : '' (w1\<lparr>stdin := rest_in\<rparr>)) of
                                 (typed, w2) \<Rightarrow>
                                   (case array_string (nat (2 * BUF_SIZE))
                                           (typed @ drop (length typed) (stack_input_pw w2)) of
                                      None \<Rightarrow> Undefined w2
                                    | Some input_pw \<Rightarrow>
                                        (let enc_str_pw =
                                               encode (enc_pw input_pw)
                                                 (array_string (nat (2 * BUF_SIZE))
                                                    (stack_enc_str_pw w2)) w2
                                         in if enc_pw input_pw \<noteq> [] \<and> enc_str_pw = None
                                            then Undefined w2
                                            else (case data_id of
                                                    None \<Rightarrow> Undefined w2
                                                  | Some account_id \<Rightarrow>
                                                      if account_id = input_id then
                                                        (case (data_pw, enc_str_pw) of
                                                           (Some pw, Some enc) \<Rightarrow>
                                                             if pw = enc
                                                             then login_accept ip_addr w2
                                                             else login_reject ip_addr w2
                                                         | _ \<Rightarrow> Undefined w2)
                                                      else login_reject ip_addr w2)))))))))"


section \<open>The entry point\<close>

text \<open>
  The first statements of \<^verbatim>\<open>main\<close>: \<^verbatim>\<open>sscanf(s, "%s %s %s", CLIENT_IP, CLIENT_PORT,
  SERVER_PORT)\<close> on the value of \<^verbatim>\<open>SSH_CLIENT\<close>.  There is no defined result when the
  variable is not set, when it holds no word, so that \<^verbatim>\<open>CLIENT_IP\<close> is read without
  having been assigned, or when a word does not fit its array of \<open>BUF_SIZE\<close> bytes.
\<close>

definition client_ip :: "world \<Rightarrow> string option" where
  "client_ip w =
     (case environ w ''SSH_CLIENT'' of
        None \<Rightarrow> None
      | Some s \<Rightarrow>
          (let words = scan_words 3 s in
           if words = [] \<or> (\<exists>x \<in> set words. int (length x) \<ge> BUF_SIZE) then None
           else Some (hd words)))"

text \<open>The statements of \<^verbatim>\<open>main\<close> before the call of \<^verbatim>\<open>lsh_loop\<close>, with the three checks.\<close>

definition main_checks :: "world \<Rightarrow> unit outcome" where
  "main_checks w =
     (case client_ip w of
        None \<Rightarrow> Undefined w
      | Some CLIENT_IP \<Rightarrow>
          seq (white_list CLIENT_IP w) (\<lambda>IP_result w1.
            if IP_result = 1 then Exits 0 w1
            else seq (check_logon CLIENT_IP w1) (\<lambda>check_result w2.
              if check_result = 1 then Exits 0 w2
              else login CLIENT_IP w2)))"

definition main :: "world \<Rightarrow> int outcome" where
  "main w =
     seq (main_checks w) (\<lambda>u w3.
       seq (lsh_loop w3) (\<lambda>u w4. Returns EXIT_SUCCESS w4))"

text \<open>The world in which a function ended, and the value it returned, if it returned.\<close>

fun world_of :: "'a outcome \<Rightarrow> world" where
  "world_of (Returns x w) = w"
| "world_of (Exits n w) = w"
| "world_of (Hangs w) = w"
| "world_of (Undefined w) = w"

fun returned :: "'a outcome \<Rightarrow> 'a option" where
  "returned (Returns x w) = Some x"
| "returned (Exits n w) = None"
| "returned (Hangs w) = None"
| "returned (Undefined w) = None"


text \<open>The status with which the process ends: what \<^verbatim>\<open>main\<close> returns or \<^verbatim>\<open>exit\<close> is given.\<close>

definition exit_status :: "int outcome \<Rightarrow> int option" where
  "exit_status out =
     (case out of
        Returns c w \<Rightarrow> Some c
      | Exits c w \<Rightarrow> Some c
      | Hangs w \<Rightarrow> None
      | Undefined w \<Rightarrow> None)"

text \<open>
  The interactive loop as a state machine: \<open>iterates v0 v\<close> says that the loop entered
  in the world \<open>v0\<close> comes to the start of a turn in the world \<open>v\<close>, each turn before
  having read a line, split it and dispatched it with the answer Continue.
\<close>

inductive iterates :: "world \<Rightarrow> world \<Rightarrow> bool" where
  entered: "iterates v0 v0"
| turn: "iterates v0 v \<Longrightarrow>
         lsh_read_line (printf ''> '' v) = Returns line v1 \<Longrightarrow>
         lsh_split_line line v1 = Returns tokens v2 \<Longrightarrow>
         argv tokens = Some args \<Longrightarrow>
         lsh_execute args v2 = Returns status v3 \<Longrightarrow>
         status \<noteq> 0 \<Longrightarrow>
         iterates v0 v3"

text \<open>
  How a part of the shell that started in the world \<open>v\<close> may end as far as allocation
  and the end of input go: every allocation it made succeeded, except that an exit with
  the failure status comes right after a failed one and the message for it, and an exit
  with the success status comes at the end of the input.
\<close>

definition orderly :: "world \<Rightarrow> 'a outcome \<Rightarrow> bool" where
  "orderly v out =
     (alloc_ok (world_of out) = alloc_ok v \<and> alloc_count v \<le> alloc_count (world_of out) \<and>
      (case out of
         Exits c v' \<Rightarrow>
           (c = EXIT_SUCCESS \<and> stdin v' = [] \<and>
              (\<forall>k. alloc_count v \<le> k \<and> k < alloc_count v' \<longrightarrow> alloc_ok v k))
           \<or> (c = EXIT_FAILURE \<and> alloc_count v < alloc_count v' \<and>
                \<not> alloc_ok v (alloc_count v' - 1) \<and>
                stderr v' \<noteq> [] \<and> last (stderr v') = alloc_error \<and>
                (\<forall>k. alloc_count v \<le> k \<and> k < alloc_count v' - 1 \<longrightarrow> alloc_ok v k))
       | _ \<Rightarrow> (\<forall>k. alloc_count v \<le> k \<and> k < alloc_count (world_of out) \<longrightarrow> alloc_ok v k)))"


section \<open>Example worlds\<close>

text \<open>
  Concrete surroundings on which the definitions can be run: a client at \<^verbatim>\<open>10.0.0.5\<close>
  that is on the list, one other shell among the processes, the account \<^verbatim>\<open>root\<close> with
  the password \<^verbatim>\<open>pw\<close>, memory that never runs out, and a C library whose \<^verbatim>\<open>sprintf\<close>
  onto its own source appends.
\<close>

definition always :: "nat \<Rightarrow> bool" where
  "always n = True"

definition never :: "nat \<Rightarrow> bool" where
  "never n = False"

definition first_only :: "nat \<Rightarrow> bool" where
  "first_only n = (n = 0)"

definition not_found :: "nat \<Rightarrow> fork_outcome" where
  "not_found n = ForkChild (ExecError ''No such file or directory'')"

definition no_process :: "nat \<Rightarrow> fork_outcome" where
  "no_process n = ForkError ''Resource temporarily unavailable''"

definition stopped_then_exits :: "nat \<Rightarrow> fork_outcome" where
  "stopped_then_exits n = ForkChild (ExecRuns [WStopped 19, WStopped 19, WExited 3])"

definition stopped_then_killed :: "nat \<Rightarrow> fork_outcome" where
  "stopped_then_killed n = ForkChild (ExecRuns [WStopped 19, WSignaled 9, WExited 0])"

definition stays_stopped :: "nat \<Rightarrow> fork_outcome" where
  "stays_stopped n = ForkChild (ExecRuns [WStopped 19, WStopped 20])"

definition demo_chdir :: "string \<Rightarrow> string \<Rightarrow> string + string" where
  "demo_chdir d p = (if p = ''/tmp'' then Inr ''/tmp'' else Inl ''No such file or directory'')"

definition demo_environ :: "string \<Rightarrow> string option" where
  "demo_environ v = (if v = ''SSH_CLIENT'' then Some ''10.0.0.5 50000 22'' else None)"

definition stranger_environ :: "string \<Rightarrow> string option" where
  "stranger_environ v = (if v = ''SSH_CLIENT'' then Some ''10.9.9.9 50000 22'' else None)"

definition demo_files :: "string \<Rightarrow> string option" where
  "demo_files p =
     (if p = ''list'' then Some (''10.0.0.4'' @ [newline] @ ''10.0.0.5'' @ [newline])
      else if p = ''data'' then Some (''root : 1114511845'' @ [newline])
      else if p = ''/proc/1/status'' then Some (''Name:'' @ [CHR 0x09] @ ''init'' @ [newline])
      else if p = ''/proc/7/status'' then Some (''Name:'' @ [CHR 0x09] @ ''lsh'' @ [newline])
      else None)"

definition demo_append_ok :: "string \<Rightarrow> bool" where
  "demo_append_ok p = True"

definition append_decimal :: "string \<Rightarrow> int \<Rightarrow> string" where
  "append_decimal b n = b @ decimal n"

definition demo :: world where
  "demo =
     \<lparr>stdin = [], stdout = [], stderr = [], cwd = ''/home'', chdir_result = demo_chdir,
      alloc_ok = always, alloc_count = 0, fork_outcomes = stopped_then_exits, fork_count = 0,
      environ = demo_environ, files = demo_files, append_ok = demo_append_ok, appended = [],
      proc_dir = Some [''.'', ''..'', ''1'', ''7'', ''self''],
      clock = ''Fri Oct 30 12:00:00 2026'' @ [newline],
      stack_input_pw = replicate 2048 NUL, stack_enc_str_pw = replicate 2048 NUL,
      sprintf_self = append_decimal\<rparr>"

text \<open>What the checks have written when they let this client in.\<close>

definition demo_stdout :: "string list" where
  "demo_stdout =
     [''ID : '', ''PW : '', login_done,
      ''Fri Oct 30 12:00:00 2026 Login at 10.0.0.5'' @ [newline]]"

definition demo_log :: "(string \<times> string) list" where
  "demo_log = [(''login_log'', ''Fri Oct 30 12:00:00 2026 Login at 10.0.0.5'' @ [newline])]"

definition long_line :: string where
  "long_line = replicate 2147482624 (CHR ''a'')"

definition page_line :: string where
  "page_line = replicate 3000 (CHR ''a'')"

definition login_input :: string where
  "login_input = ''root'' @ [newline] @ ''pw'' @ [newline]"


section \<open>Properties of the dispatcher and the launcher\<close>

lemma search_builtins_all:
  "search_builtins [0..<lsh_num_builtins] args w =
     (if hd args = ''cd'' then lsh_cd args w
      else if hd args = ''help'' then lsh_help args w
      else if hd args = ''exit'' then lsh_exit args w
      else lsh_launch args w)"
proof -
  have "[0..<lsh_num_builtins] = [0, 1, 2]"
    by (simp add: lsh_num_builtins_def builtin_str_def upt_rec)
  then show ?thesis
    by (simp add: builtin_str_def builtin_func_def)
qed

lemma lsh_execute_cases:
  "lsh_execute args w =
     (if args = [] then Returns 1 w
      else if hd args = ''cd'' then lsh_cd args w
      else if hd args = ''help'' then lsh_help args w
      else if hd args = ''exit'' then lsh_exit args w
      else lsh_launch args w)"
  by (simp add: lsh_execute_def search_builtins_all)

text \<open>
  C5.  Dispatching an argument list whose first token is \<^verbatim>\<open>exit\<close> returns Terminate,
  whatever the further arguments are, and changes nothing in the world.
\<close>

theorem exit_returns_terminate:
  "lsh_execute (''exit'' # rest) w = Returns Terminate w"
  by (simp add: lsh_execute_cases lsh_exit_def Terminate_def)

text \<open>
  C7.  Dispatching \<^verbatim>\<open>cd\<close> without a second argument writes the usage error to the error
  stream, returns Continue, and leaves the working directory, and everything else in the
  world, as it was.
\<close>

theorem cd_without_argument:
  "lsh_execute [''cd''] w = Returns Continue (w\<lparr>stderr := stderr w @ [cd_usage]\<rparr>)
   \<and> cwd (world_of (lsh_execute [''cd''] w)) = cwd w
   \<and> stderr (world_of (lsh_execute [''cd''] w)) = stderr w @ [cd_usage]"
  by (simp add: lsh_execute_cases lsh_cd_def Continue_def fprintf_stderr_def)


lemma wait_loop_find:
  "wait_loop evs w =
     (case find terminal evs of Some status \<Rightarrow> Returns status w | None \<Rightarrow> Hangs w)"
  by (induction evs) (simp_all add: terminal_def)

lemma lsh_launch_cases:
  "lsh_launch args w =
     (case fork_outcomes w (fork_count w) of
        ForkError e \<Rightarrow> Returns 1 (perror ''lsh'' e (w\<lparr>fork_count := Suc (fork_count w)\<rparr>))
      | ForkChild c \<Rightarrow>
          (case find terminal (child_events c) of
             Some status \<Rightarrow>
               Returns 1 (child_reports c (w\<lparr>fork_count := Suc (fork_count w)\<rparr>))
           | None \<Rightarrow> Hangs (child_reports c (w\<lparr>fork_count := Suc (fork_count w)\<rparr>))))"
  by (simp add: lsh_launch_def fork_def wait_loop_find
           split: fork_outcome.splits option.splits)

text \<open>
  C3.  After a successful spawn the launcher leaves its wait loop exactly on the first
  status that says the child exited or was killed by a signal; every status before it,
  which can only say that the child is stopped, makes it wait again, and when no such
  status ever comes the launcher does not return.
\<close>

theorem launch_waits_for_terminal_status:
  assumes "fork_outcomes w (fork_count w) = ForkChild (ExecRuns evs)"
  shows "wait_loop evs (w\<lparr>fork_count := Suc (fork_count w)\<rparr>) =
           (case find terminal evs of
              Some status \<Rightarrow> Returns status (w\<lparr>fork_count := Suc (fork_count w)\<rparr>)
            | None \<Rightarrow> Hangs (w\<lparr>fork_count := Suc (fork_count w)\<rparr>))
         \<and> lsh_launch args w =
           (if list_ex terminal evs then Returns 1 (w\<lparr>fork_count := Suc (fork_count w)\<rparr>)
            else Hangs (w\<lparr>fork_count := Suc (fork_count w)\<rparr>))"
proof -
  have "list_ex terminal evs \<longleftrightarrow> find terminal evs \<noteq> None"
    by (auto simp: list_ex_iff find_None_iff)
  with assms show ?thesis
    by (auto simp: wait_loop_find lsh_launch_cases child_events_def child_reports_def)
qed

theorem launch_waits_for_terminal_status_witness:
  "fork_outcomes demo (fork_count demo) = ForkChild (ExecRuns [WStopped 19, WStopped 19, WExited 3])
   \<and> wait_loop [WStopped 19, WStopped 19, WExited 3] (demo\<lparr>fork_count := 1\<rparr>) =
       Returns (WExited 3) (demo\<lparr>fork_count := 1\<rparr>)
   \<and> lsh_launch [''sleep'', ''9''] demo = Returns 1 (demo\<lparr>fork_count := 1\<rparr>)
   \<and> lsh_launch [''sleep'', ''9''] (demo\<lparr>fork_outcomes := stays_stopped\<rparr>) =
       Hangs (demo\<lparr>fork_outcomes := stays_stopped, fork_count := 1\<rparr>)
   \<and> lsh_launch [''sleep'', ''9''] (demo\<lparr>fork_outcomes := stopped_then_killed\<rparr>) =
       Returns 1 (demo\<lparr>fork_outcomes := stopped_then_killed, fork_count := 1\<rparr>)"
proof -
  have a: "fork_outcomes demo (fork_count demo) =
      ForkChild (ExecRuns [WStopped 19, WStopped 19, WExited 3])"
    by (simp add: demo_def stopped_then_exits_def)
  have b: "fork_outcomes (demo\<lparr>fork_outcomes := stays_stopped\<rparr>)
      (fork_count (demo\<lparr>fork_outcomes := stays_stopped\<rparr>)) =
      ForkChild (ExecRuns [WStopped 19, WStopped 20])"
    by (simp add: stays_stopped_def)
  have c: "fork_outcomes (demo\<lparr>fork_outcomes := stopped_then_killed\<rparr>)
      (fork_count (demo\<lparr>fork_outcomes := stopped_then_killed\<rparr>)) =
      ForkChild (ExecRuns [WStopped 19, WSignaled 9, WExited 0])"
    by (simp add: stopped_then_killed_def)
  have d: "fork_count demo = 0" by (simp add: demo_def)
  show ?thesis
    using launch_waits_for_terminal_status [OF a, of "[''sleep'', ''9'']"]
          launch_waits_for_terminal_status [OF b, of "[''sleep'', ''9'']"]
          launch_waits_for_terminal_status [OF c, of "[''sleep'', ''9'']"]
          a d
    by (simp add: terminal_def WIFEXITED_def WIFSIGNALED_def)
qed

text \<open>
  C2.  For an argument list that is empty or whose first token is not \<^verbatim>\<open>exit\<close>, the
  dispatcher never ends the process and never answers Terminate: it returns Continue
  or, when an external command's child never comes to an end, does not return.  With
  the empty list, with the builtins \<^verbatim>\<open>cd\<close> and \<^verbatim>\<open>help\<close>, and with every external
  command whose spawn fails or whose child comes to an end, whatever its exit status,
  it returns Continue; the empty list changes nothing.
\<close>

theorem execute_returns_continue:
  assumes "args = [] \<or> hd args \<noteq> ''exit''"
  shows "(lsh_execute args w = Returns Continue (world_of (lsh_execute args w))
          \<or> lsh_execute args w = Hangs (world_of (lsh_execute args w)))
       \<and> (args = [] \<or> hd args = ''cd'' \<or> hd args = ''help''
            \<or> completes (fork_outcomes w (fork_count w))
          \<longrightarrow> lsh_execute args w = Returns Continue (world_of (lsh_execute args w)))
       \<and> (args = [] \<longrightarrow> lsh_execute args w = Returns Continue w)"
proof -
  have launch: "lsh_launch args w = Returns 1 (world_of (lsh_launch args w))
      \<or> lsh_launch args w = Hangs (world_of (lsh_launch args w))"
    by (simp add: lsh_launch_cases split: fork_outcome.splits option.splits)
  have launch_done: "completes (fork_outcomes w (fork_count w)) \<Longrightarrow>
      lsh_launch args w = Returns 1 (world_of (lsh_launch args w))"
    by (auto simp: lsh_launch_cases completes_def list_ex_iff find_None_iff
             split: fork_outcome.splits option.splits)
  have cd: "lsh_cd args w = Returns 1 (world_of (lsh_cd args w))"
    by (simp add: lsh_cd_def split: sum.splits)
  have hlp: "lsh_help args w = Returns 1 (world_of (lsh_help args w))"
    by (simp add: lsh_help_def)
  from assms launch launch_done cd hlp show ?thesis
    by (auto simp: lsh_execute_cases Continue_def)
qed

theorem execute_returns_continue_witness:
  "lsh_execute [''ls'', ''-l''] demo = Returns Continue (demo\<lparr>fork_count := 1\<rparr>)
   \<and> lsh_execute [''help''] demo = Returns Continue (world_of (lsh_execute [''help''] demo))
   \<and> lsh_execute [''cd'', ''/tmp''] demo = Returns Continue (demo\<lparr>cwd := ''/tmp''\<rparr>)
   \<and> lsh_execute [] demo = Returns Continue demo"
proof -
  have c: "completes (fork_outcomes demo (fork_count demo))"
    by (simp add: demo_def stopped_then_exits_def completes_def child_events_def
                  terminal_def WIFEXITED_def WIFSIGNALED_def)
  have w1: "world_of (lsh_execute [''ls'', ''-l''] demo) = demo\<lparr>fork_count := 1\<rparr>"
    by (simp add: lsh_execute_cases lsh_launch_cases demo_def stopped_then_exits_def
                  child_events_def child_reports_def terminal_def WIFEXITED_def WIFSIGNALED_def)
  have w2: "world_of (lsh_execute [''cd'', ''/tmp''] demo) = demo\<lparr>cwd := ''/tmp''\<rparr>"
    by (simp add: lsh_execute_cases lsh_cd_def demo_def demo_chdir_def)
  show ?thesis
    using execute_returns_continue [of "[''ls'', ''-l'']" demo]
          execute_returns_continue [of "[''help'']" demo]
          execute_returns_continue [of "[''cd'', ''/tmp'']" demo]
          execute_returns_continue [of "[]" demo] c w1 w2
    by simp
qed

text \<open>
  C4.  When an external command cannot be started, because \<^verbatim>\<open>fork\<close> fails or because
  \<^verbatim>\<open>execvp\<close> fails in the child, the error is written to the error stream and the
  dispatcher returns Continue in the parent: nothing else in the world changes but the
  count of forks.
\<close>

theorem spawn_failure_continues:
  assumes "args \<noteq> []" and "hd args \<notin> set builtin_str"
    and "fork_outcomes w (fork_count w) = ForkError e
         \<or> fork_outcomes w (fork_count w) = ForkChild (ExecError e)"
  shows "lsh_execute args w =
           Returns Continue
             (w\<lparr>fork_count := Suc (fork_count w),
                stderr := stderr w @ [''lsh: '' @ e @ [newline]]\<rparr>)"
  using assms
  by (auto simp: lsh_execute_cases lsh_launch_cases builtin_str_def Continue_def perror_def
                 child_events_def child_reports_def terminal_def WIFEXITED_def)

theorem spawn_failure_continues_witness:
  "lsh_execute [''doesnotexist123''] (demo\<lparr>fork_outcomes := not_found\<rparr>) =
     Returns Continue
       (demo\<lparr>fork_outcomes := not_found, fork_count := 1,
             stderr := [''lsh: No such file or directory'' @ [newline]]\<rparr>)
   \<and> lsh_execute [''doesnotexist123''] (demo\<lparr>fork_outcomes := no_process\<rparr>) =
     Returns Continue
       (demo\<lparr>fork_outcomes := no_process, fork_count := 1,
             stderr := [''lsh: Resource temporarily unavailable'' @ [newline]]\<rparr>)"
proof -
  have a: "[''doesnotexist123''] \<noteq> []" by simp
  have b: "hd [''doesnotexist123''] \<notin> set builtin_str" by (simp add: builtin_str_def)
  have c: "fork_outcomes (demo\<lparr>fork_outcomes := not_found\<rparr>)
             (fork_count (demo\<lparr>fork_outcomes := not_found\<rparr>)) = ForkError ''No such file or directory''
         \<or> fork_outcomes (demo\<lparr>fork_outcomes := not_found\<rparr>)
             (fork_count (demo\<lparr>fork_outcomes := not_found\<rparr>)) =
           ForkChild (ExecError ''No such file or directory'')"
    by (simp add: not_found_def)
  have d: "fork_outcomes (demo\<lparr>fork_outcomes := no_process\<rparr>)
             (fork_count (demo\<lparr>fork_outcomes := no_process\<rparr>)) =
           ForkError ''Resource temporarily unavailable''
         \<or> fork_outcomes (demo\<lparr>fork_outcomes := no_process\<rparr>)
             (fork_count (demo\<lparr>fork_outcomes := no_process\<rparr>)) =
           ForkChild (ExecError ''Resource temporarily unavailable'')"
    by (simp add: no_process_def)
  have e: "fork_count demo = 0" "stderr demo = []" by (simp_all add: demo_def)
  show ?thesis
    using spawn_failure_continues [OF a b c] spawn_failure_continues [OF a b d] e
    by simp
qed


section \<open>Properties of the line reader\<close>

lemma div_1024_bounds:
  fixes p :: nat
  shows "1024 * (p div 1024) \<le> p" and "p < 1024 * (p div 1024 + 1)"
proof -
  define q r where "q = p div 1024" and "r = p mod 1024"
  have r: "r < 1024" by (simp add: r_def)
  have e: "p = 1024 * q + r" by (simp add: q_def r_def)
  have "1024 * q \<le> p" using e by simp
  then show "1024 * (p div 1024) \<le> p" by (simp only: q_def)
  have "p < 1024 * (q + 1)" using r e by simp
  then show "p < 1024 * (p div 1024 + 1)" by (simp only: q_def)
qed

lemma div_1024_eq:
  fixes p q :: nat
  assumes "1024 * q \<le> p" and "p < 1024 * (q + 1)"
  shows "p div 1024 = q"
  using assms by (intro div_nat_eqI) simp_all

text \<open>
  Reading a run of characters without a newline, from any state of the loop in which
  \<^verbatim>\<open>bufsize\<close> is the first multiple of 1024 above \<^verbatim>\<open>position\<close> and is the size of the
  buffer: when the allocations it asks for succeed and the line stays below
  \<open>2147482624\<close> characters, the loop arrives at the state with all of them stored.
  Here \<open>q\<close> and \<open>q'\<close> count the buffer growths before and after.
\<close>

lemma read_loop_consume_aux:
  assumes "stdin w = l @ tail" and "newline \<notin> set l"
    and "length buffer = 1024 * (q + 1)" and "1024 * q \<le> p" and "p < 1024 * (q + 1)"
    and "1024 * q' \<le> p + length l" and "p + length l < 1024 * (q' + 1)"
    and "p + length l < 2147482624"
    and "\<forall>k < q' - q. alloc_ok w (alloc_count w + k)"
  shows "\<exists>buffer'.
           read_loop buffer (int p) (1024 * int (q + 1)) w =
             read_loop buffer' (int (p + length l)) (1024 * int (q' + 1))
               (w\<lparr>stdin := tail, alloc_count := alloc_count w + (q' - q)\<rparr>)
           \<and> length buffer' = 1024 * (q' + 1)
           \<and> take (p + length l) buffer' = take p buffer @ map Some l"
  using assms
proof (induction l arbitrary: p q buffer w)
  case Nil
  have "q' = q"
    using Nil.prems(4-7) by simp
  moreover have "w\<lparr>stdin := tail, alloc_count := alloc_count w\<rparr> = w"
    using Nil.prems(1) by simp
  ultimately show ?case using Nil.prems(3) by auto
next
  case (Cons c l)
  let ?b1 = "buffer[p := Some c]"
  have c: "c \<noteq> newline" and l: "newline \<notin> set l" using Cons.prems(2) by auto
  have st: "stdin w = c # (l @ tail)" using Cons.prems(1) by simp
  have plt: "p < length buffer" using Cons.prems(3,5) by simp
  have store1: "store buffer (int p) c = Some ?b1"
    using plt by (simp add: store_def)
  have bound: "Suc p + length l < 2147482624" using Cons.prems(8) by simp
  have hi: "1024 * q' \<le> Suc p + length l" "Suc p + length l < 1024 * (q' + 1)"
    using Cons.prems(6,7) by simp_all
  have tk: "take (Suc p) ?b1 = take p buffer @ [Some c]"
    using plt by (simp add: take_Suc_conv_app_nth)
  have no_ov: "\<not> int p + 1 > INT_MAX" using bound by (simp add: INT_MAX_def)
  have suc: "int (Suc p) = int p + 1" by simp
  show ?case
  proof (cases "1024 * (q + 1) \<le> p + 1")
    case True
    let ?w2 = "w\<lparr>stdin := l @ tail, alloc_count := Suc (alloc_count w)\<rparr>"
    let ?n = "nat (1024 * int (q + 1) + LSH_RL_BUFSIZE)"
    let ?b2 = "take ?n ?b1 @ replicate (?n - length ?b1) None"
    have qq: "Suc q \<le> q'" using True hi(2) by simp
    with Cons.prems(9) have ok: "alloc_ok w (alloc_count w)" by force
    have n2: "?n = 1024 * (Suc q + 1)"
      by (simp add: LSH_RL_BUFSIZE_def nat_add_distrib nat_mult_distrib)
    have len2: "length ?b2 = 1024 * (Suc q + 1)"
      using Cons.prems(3) unfolding n2 by simp
    have tk2: "take (Suc p) ?b2 = take p buffer @ [Some c]"
      using Cons.prems(3) tk plt unfolding n2 by simp
    have grow: "int p + 1 \<ge> 1024 * int (q + 1)" using True by linarith
    have fits: "\<not> 1024 * int (q + 1) + LSH_RL_BUFSIZE > INT_MAX"
      using True Cons.prems(5) bound by (simp add: INT_MAX_def LSH_RL_BUFSIZE_def)
    have bs: "1024 * int (q + 1) + LSH_RL_BUFSIZE = 1024 * int (Suc q + 1)"
      by (simp add: LSH_RL_BUFSIZE_def)
    have step: "read_loop buffer (int p) (1024 * int (q + 1)) w =
        read_loop ?b2 (int (Suc p)) (1024 * int (Suc q + 1)) ?w2"
      unfolding read_loop_char [OF st c] store1 suc bs [symmetric]
      using no_ov grow fits ok by simp
    have alloc2: "\<forall>k < q' - Suc q. alloc_ok ?w2 (alloc_count ?w2 + k)"
    proof (intro allI impI)
      fix k assume "k < q' - Suc q"
      then have "Suc k < q' - q" by simp
      with Cons.prems(9) have "alloc_ok w (alloc_count w + Suc k)" by blast
      then show "alloc_ok ?w2 (alloc_count ?w2 + k)" by simp
    qed
    have lo2: "1024 * Suc q \<le> Suc p" using True by simp
    have up2: "Suc p < 1024 * (Suc q + 1)" using Cons.prems(5) by simp
    have "stdin ?w2 = l @ tail" by simp
    from Cons.IH [OF this l len2 lo2 up2 hi bound alloc2]
    obtain buffer' where
      r: "read_loop ?b2 (int (Suc p)) (1024 * int (Suc q + 1)) ?w2 =
            read_loop buffer' (int (Suc p + length l)) (1024 * int (q' + 1))
              (?w2\<lparr>stdin := tail, alloc_count := alloc_count ?w2 + (q' - Suc q)\<rparr>)"
      and len: "length buffer' = 1024 * (q' + 1)"
      and pre: "take (Suc p + length l) buffer' = take (Suc p) ?b2 @ map Some l"
      by blast
    have w_eq: "?w2\<lparr>stdin := tail, alloc_count := alloc_count ?w2 + (q' - Suc q)\<rparr> =
        w\<lparr>stdin := tail, alloc_count := alloc_count w + (q' - q)\<rparr>"
      using qq by simp
    have "read_loop buffer (int p) (1024 * int (q + 1)) w =
        read_loop buffer' (int (p + length (c # l))) (1024 * int (q' + 1))
          (w\<lparr>stdin := tail, alloc_count := alloc_count w + (q' - q)\<rparr>)"
      using step r unfolding w_eq by simp
    moreover have "take (p + length (c # l)) buffer' = take p buffer @ map Some (c # l)"
      using pre tk2 by simp
    ultimately show ?thesis using len by blast
  next
    case False
    let ?w2 = "w\<lparr>stdin := l @ tail\<rparr>"
    have len1: "length ?b1 = 1024 * (q + 1)" using Cons.prems(3) by simp
    have nogrow: "\<not> int p + 1 \<ge> 1024 * int (q + 1)" using False by linarith
    have step: "read_loop buffer (int p) (1024 * int (q + 1)) w =
        read_loop ?b1 (int (Suc p)) (1024 * int (q + 1)) ?w2"
      unfolding read_loop_char [OF st c] store1 suc
      using no_ov nogrow by simp
    have alloc2: "\<forall>k < q' - q. alloc_ok ?w2 (alloc_count ?w2 + k)"
      using Cons.prems(9) by simp
    have lo2: "1024 * q \<le> Suc p" using Cons.prems(4) by simp
    have up2: "Suc p < 1024 * (q + 1)" using False by simp
    have "stdin ?w2 = l @ tail" by simp
    from Cons.IH [OF this l len1 lo2 up2 hi bound alloc2]
    obtain buffer' where
      r: "read_loop ?b1 (int (Suc p)) (1024 * int (q + 1)) ?w2 =
            read_loop buffer' (int (Suc p + length l)) (1024 * int (q' + 1))
              (?w2\<lparr>stdin := tail, alloc_count := alloc_count ?w2 + (q' - q)\<rparr>)"
      and len: "length buffer' = 1024 * (q' + 1)"
      and pre: "take (Suc p + length l) buffer' = take (Suc p) ?b1 @ map Some l"
      by blast
    have "read_loop buffer (int p) (1024 * int (q + 1)) w =
        read_loop buffer' (int (p + length (c # l))) (1024 * int (q' + 1))
          (w\<lparr>stdin := tail, alloc_count := alloc_count w + (q' - q)\<rparr>)"
      using step r by simp
    moreover have "take (p + length (c # l)) buffer' = take p buffer @ map Some (c # l)"
      using pre tk by simp
    ultimately show ?thesis using len by blast
  qed
qed


lemma read_line_consume:
  assumes "stdin w = l @ tail" and "newline \<notin> set l"
    and "length l < 2147482624"
    and "\<forall>k \<le> length l div 1024. alloc_ok w (alloc_count w + k)"
  shows "\<exists>buffer'.
           lsh_read_line w =
             read_loop buffer' (int (length l)) (1024 * int (length l div 1024 + 1))
               (w\<lparr>stdin := tail, alloc_count := alloc_count w + 1 + length l div 1024\<rparr>)
           \<and> length buffer' = 1024 * (length l div 1024 + 1)
           \<and> take (length l) buffer' = map Some l"
proof -
  let ?w1 = "w\<lparr>alloc_count := Suc (alloc_count w)\<rparr>"
  let ?b = "replicate (nat LSH_RL_BUFSIZE) (None :: char option)"
  let ?q = "length l div 1024"
  have ok: "alloc_ok w (alloc_count w)" using assms(4) by force
  have start: "lsh_read_line w = read_loop ?b (int 0) (1024 * int (0 + 1)) ?w1"
    using ok by (simp add: lsh_read_line_def malloc_def LSH_RL_BUFSIZE_def)
  have a1: "stdin ?w1 = l @ tail" using assms(1) by simp
  have a3: "length ?b = 1024 * (0 + 1)" by (simp add: LSH_RL_BUFSIZE_def)
  have a4: "1024 * 0 \<le> (0::nat)" and a5: "(0::nat) < 1024 * (0 + 1)" by simp_all
  have a6: "1024 * ?q \<le> 0 + length l" using div_1024_bounds(1) [of "length l"] by simp
  have a7: "0 + length l < 1024 * (?q + 1)" using div_1024_bounds(2) [of "length l"] by simp
  have a8: "0 + length l < 2147482624" using assms(3) by simp
  have a9: "\<forall>k < ?q - 0. alloc_ok ?w1 (alloc_count ?w1 + k)"
  proof (intro allI impI)
    fix k assume "k < ?q - 0"
    then have "Suc k \<le> ?q" by simp
    with assms(4) have "alloc_ok w (alloc_count w + Suc k)" by blast
    then show "alloc_ok ?w1 (alloc_count ?w1 + k)" by simp
  qed
  from read_loop_consume_aux [OF a1 assms(2) a3 a4 a5 a6 a7 a8 a9]
  obtain buffer' where
    r: "read_loop ?b (int 0) (1024 * int (0 + 1)) ?w1 =
          read_loop buffer' (int (0 + length l)) (1024 * int (?q + 1))
            (?w1\<lparr>stdin := tail, alloc_count := alloc_count ?w1 + (?q - 0)\<rparr>)"
    and len: "length buffer' = 1024 * (?q + 1)"
    and pre: "take (0 + length l) buffer' = take 0 ?b @ map Some l"
    by blast
  have "lsh_read_line w =
      read_loop buffer' (int (length l)) (1024 * int (?q + 1))
        (w\<lparr>stdin := tail, alloc_count := alloc_count w + 1 + ?q\<rparr>)"
    using start r by simp
  moreover have "take (length l) buffer' = map Some l" using pre by simp
  ultimately show ?thesis using len by blast
qed

lemma terminated_front:
  "terminated z (map Some xs @ Some z # cells) = Some (takeWhile (\<lambda>x. x \<noteq> z) xs)"
  by (induction xs) simp_all

lemma terminated_take:
  assumes "take (length xs + 1) cells = map Some xs @ [Some z]"
  shows "terminated z cells = Some (takeWhile (\<lambda>x. x \<noteq> z) xs)"
proof -
  have "take (length xs + 1) cells @ drop (length xs + 1) cells = cells"
    by (rule append_take_drop_id)
  then have "(map Some xs @ [Some z]) @ drop (length xs + 1) cells = cells"
    by (simp only: assms)
  then have "cells = map Some xs @ Some z # drop (length xs + 1) cells"
    by simp
  then show ?thesis using terminated_front [of z xs] by metis
qed

lemma read_line_returns_buffer:
  assumes "stdin w = l @ newline # rest" and "newline \<notin> set l"
    and "length l < 2147482624"
    and "\<forall>k \<le> length l div 1024. alloc_ok w (alloc_count w + k)"
  shows "\<exists>buffer.
           lsh_read_line w =
             Returns buffer
               (w\<lparr>stdin := rest, alloc_count := alloc_count w + 1 + length l div 1024\<rparr>)
           \<and> take (length l + 1) buffer = map Some l @ [Some NUL]"
proof -
  let ?w' = "w\<lparr>stdin := newline # rest, alloc_count := alloc_count w + 1 + length l div 1024\<rparr>"
  from read_line_consume [OF assms]
  obtain buffer' where
    r: "lsh_read_line w =
          read_loop buffer' (int (length l)) (1024 * int (length l div 1024 + 1)) ?w'"
    and len: "length buffer' = 1024 * (length l div 1024 + 1)"
    and pre: "take (length l) buffer' = map Some l"
    by blast
  have lt: "length l < length buffer'"
    using len div_1024_bounds(2) [of "length l"] by simp
  then have st: "store buffer' (int (length l)) NUL = Some (buffer'[length l := Some NUL])"
    by (simp add: store_def)
  have "stdin ?w' = newline # rest" by simp
  then have "read_loop buffer' (int (length l)) (1024 * int (length l div 1024 + 1)) ?w' =
      Returns (buffer'[length l := Some NUL]) (?w'\<lparr>stdin := rest\<rparr>)"
    by (simp only: read_loop_newline st option.case)
  then have "lsh_read_line w =
      Returns (buffer'[length l := Some NUL])
        (w\<lparr>stdin := rest, alloc_count := alloc_count w + 1 + length l div 1024\<rparr>)"
    using r by simp
  moreover have "take (length l + 1) (buffer'[length l := Some NUL]) = map Some l @ [Some NUL]"
    using lt pre by (simp add: take_Suc_conv_app_nth)
  ultimately show ?thesis by blast
qed

lemma read_loop_no_newline:
  "newline \<notin> set (stdin w) \<Longrightarrow> read_loop buffer position bufsize w \<noteq> Returns line w'"
proof (induction "stdin w" arbitrary: buffer position bufsize w)
  case Nil
  then show ?case by (simp add: read_loop_eof)
next
  case (Cons c cs)
  note eq = Cons.hyps(2) [symmetric]
  from Cons.prems eq have c: "c \<noteq> newline" and cs: "newline \<notin> set cs" by auto
  have step: "\<And>b p s v. stdin v = cs \<Longrightarrow> read_loop b p s v \<noteq> Returns line w'"
    using Cons.hyps(1) cs by metis
  show ?case
    unfolding read_loop_char [OF eq c]
    by (auto split: option.splits simp: step)
qed

lemma lsh_read_line_no_newline:
  "newline \<notin> set (stdin w) \<Longrightarrow> lsh_read_line w \<noteq> Returns line w'"
  by (simp add: lsh_read_line_def malloc_def read_loop_no_newline)

lemma read_line_eof:
  assumes "newline \<notin> set (stdin w)" and "length (stdin w) < 2147482624"
    and "\<forall>k \<le> length (stdin w) div 1024. alloc_ok w (alloc_count w + k)"
  shows "lsh_read_line w =
           Exits EXIT_SUCCESS
             (w\<lparr>stdin := [], alloc_count := alloc_count w + 1 + length (stdin w) div 1024\<rparr>)"
proof -
  have "stdin w = stdin w @ []" by simp
  from read_line_consume [OF this assms]
  obtain buffer' where
    r: "lsh_read_line w =
          read_loop buffer' (int (length (stdin w))) (1024 * int (length (stdin w) div 1024 + 1))
            (w\<lparr>stdin := [], alloc_count := alloc_count w + 1 + length (stdin w) div 1024\<rparr>)"
    by blast
  show ?thesis unfolding r by (simp add: read_loop_eof)
qed


text \<open>
  C1 (as amended).  For every input line that has fewer than 2147482624 characters
  before its terminator and no \<^verbatim>\<open>NUL\<close> among them, when the allocations the reader asks
  for succeed (one for the buffer and one for each 1024 characters stored), the reader
  returns a buffer that holds exactly the characters before the terminator, followed by
  \<^verbatim>\<open>NUL\<close>; the string in it is the line, whether or not the buffer had to grow, and the
  input behind the terminator is left for the next read.
\<close>

theorem read_line_exact:
  assumes "stdin w = l @ newline # rest" and "newline \<notin> set l" and "NUL \<notin> set l"
    and "length l < 2147482624"
    and "\<forall>k \<le> length l div 1024. alloc_ok w (alloc_count w + k)"
  shows "\<exists>buffer.
           lsh_read_line w =
             Returns buffer
               (w\<lparr>stdin := rest, alloc_count := alloc_count w + 1 + length l div 1024\<rparr>)
           \<and> take (length l + 1) buffer = map Some l @ [Some NUL]
           \<and> c_str buffer = Some l"
proof -
  from read_line_returns_buffer [OF assms(1,2,4,5)]
  obtain buffer where
    r: "lsh_read_line w =
          Returns buffer
            (w\<lparr>stdin := rest, alloc_count := alloc_count w + 1 + length l div 1024\<rparr>)"
    and pre: "take (length l + 1) buffer = map Some l @ [Some NUL]"
    by blast
  have "takeWhile (\<lambda>x. x \<noteq> NUL) l = l" using assms(3) by (auto simp: takeWhile_eq_all_conv)
  with terminated_take [OF pre] have "c_str buffer = Some l" by (simp add: c_str_def)
  with r pre show ?thesis by blast
qed

theorem read_line_exact_witness:
  "(\<exists>buffer.
      lsh_read_line (demo\<lparr>stdin := ''ls -l'' @ newline # ''pwd''\<rparr>) =
        Returns buffer (demo\<lparr>stdin := ''pwd'', alloc_count := 1\<rparr>)
      \<and> c_str buffer = Some ''ls -l'')
   \<and> (\<exists>buffer.
      lsh_read_line (demo\<lparr>stdin := page_line @ newline # []\<rparr>) =
        Returns buffer (demo\<lparr>stdin := [], alloc_count := 3\<rparr>)
      \<and> c_str buffer = Some page_line)"
proof -
  let ?v = "demo\<lparr>stdin := ''ls -l'' @ newline # ''pwd''\<rparr>"
  let ?w = "demo\<lparr>stdin := page_line @ newline # []\<rparr>"
  have ac: "alloc_count demo = 0" by (simp add: demo_def)
  have a1: "stdin ?v = ''ls -l'' @ newline # ''pwd''" by simp
  have a2: "newline \<notin> set ''ls -l''" "NUL \<notin> set ''ls -l''" "length ''ls -l'' < 2147482624"
    by (simp_all add: newline_def NUL_def)
  have a3: "\<forall>k \<le> length ''ls -l'' div 1024. alloc_ok ?v (alloc_count ?v + k)"
    by (simp add: demo_def always_def)
  have a4: "?v\<lparr>stdin := ''pwd'', alloc_count := alloc_count ?v + 1 + length ''ls -l'' div 1024\<rparr> =
      demo\<lparr>stdin := ''pwd'', alloc_count := 1\<rparr>"
    using ac by simp
  have b1: "stdin ?w = page_line @ newline # []" by simp
  have b2: "newline \<notin> set page_line" "NUL \<notin> set page_line" "length page_line < 2147482624"
    by (simp_all add: page_line_def newline_def NUL_def)
  have b3: "\<forall>k \<le> length page_line div 1024. alloc_ok ?w (alloc_count ?w + k)"
    by (simp add: demo_def always_def)
  have b4: "?w\<lparr>stdin := [], alloc_count := alloc_count ?w + 1 + length page_line div 1024\<rparr> =
      demo\<lparr>stdin := [], alloc_count := 3\<rparr>"
    using ac by (simp add: page_line_def)
  from read_line_exact [OF a1 a2 a3] have
    "\<exists>buffer. lsh_read_line ?v = Returns buffer (demo\<lparr>stdin := ''pwd'', alloc_count := 1\<rparr>)
       \<and> c_str buffer = Some ''ls -l''"
    unfolding a4 by blast
  moreover from read_line_exact [OF b1 b2 b3] have
    "\<exists>buffer. lsh_read_line ?w = Returns buffer (demo\<lparr>stdin := [], alloc_count := 3\<rparr>)
       \<and> c_str buffer = Some page_line"
    unfolding b4 by blast
  ultimately show ?thesis by (rule conjI)
qed

lemma read_line_overflow:
  assumes "stdin w = l @ c # cs" and "newline \<notin> set l" and "c \<noteq> newline"
    and "length l = 2147482623"
    and "\<forall>k \<le> 2097150. alloc_ok w (alloc_count w + k)"
  shows "lsh_read_line w = Undefined (w\<lparr>stdin := cs, alloc_count := alloc_count w + 2097151\<rparr>)"
proof -
  have d: "length l div 1024 = 2097150" using assms(4) by simp
  let ?w' = "w\<lparr>stdin := c # cs, alloc_count := alloc_count w + 1 + length l div 1024\<rparr>"
  have lt: "length l < 2147482624" using assms(4) by simp
  have al: "\<forall>k \<le> length l div 1024. alloc_ok w (alloc_count w + k)"
    using assms(5) d by simp
  from read_line_consume [OF assms(1,2) lt al]
  obtain buffer' where
    r: "lsh_read_line w =
          read_loop buffer' (int (length l)) (1024 * int (length l div 1024 + 1)) ?w'"
    and len: "length buffer' = 1024 * (length l div 1024 + 1)"
    by blast
  have st: "store buffer' (int (length l)) c = Some (buffer'[length l := Some c])"
    using len d assms(4) by (simp add: store_def)
  have "stdin ?w' = c # cs" by simp
  from read_loop_char [OF this assms(3), of buffer' "int (length l)" "1024 * int (length l div 1024 + 1)"]
  have "read_loop buffer' (int (length l)) (1024 * int (length l div 1024 + 1)) ?w' =
      Undefined (?w'\<lparr>stdin := cs\<rparr>)"
    unfolding st by (simp add: d assms(4) INT_MAX_def LSH_RL_BUFSIZE_def)
  with r d show ?thesis by simp
qed

text \<open>
  The claim C1 as it is written fails in three ways: a line of 2147482624 characters
  takes \<^verbatim>\<open>bufsize\<close> beyond \<open>INT_MAX\<close>; of a line with a \<^verbatim>\<open>NUL\<close> in it the string in the
  returned buffer is the part before the \<^verbatim>\<open>NUL\<close>; and when the allocation fails the
  process ends without a line.
\<close>

theorem read_line_exact_counterexample:
  "lsh_read_line (demo\<lparr>stdin := long_line @ [newline]\<rparr>) =
     Undefined (demo\<lparr>stdin := [newline], alloc_count := 2097151\<rparr>)
   \<and> Option.bind (returned (lsh_read_line (demo\<lparr>stdin := [CHR ''a'', NUL, CHR ''b'', newline]\<rparr>)))
        c_str = Some ''a''
   \<and> lsh_read_line (demo\<lparr>stdin := ''ls'' @ [newline], alloc_ok := never\<rparr>) =
     Exits EXIT_FAILURE
       (demo\<lparr>stdin := ''ls'' @ [newline], alloc_ok := never, alloc_count := 1,
             stderr := [alloc_error]\<rparr>)"
proof -
  have split: "long_line = replicate 2147482623 (CHR ''a'') @ [CHR ''a'']"
    unfolding long_line_def
    using replicate_add [of 2147482623 1 "CHR ''a''"] by simp
  let ?w = "demo\<lparr>stdin := long_line @ [newline]\<rparr>"
  have s1: "stdin ?w = replicate 2147482623 (CHR ''a'') @ CHR ''a'' # [newline]"
    by (simp add: split)
  have s2: "newline \<notin> set (replicate 2147482623 (CHR ''a''))" "CHR ''a'' \<noteq> newline"
    "length (replicate 2147482623 (CHR ''a'')) = 2147482623"
    by (simp_all add: newline_def)
  have s3: "\<forall>k \<le> 2097150. alloc_ok ?w (alloc_count ?w + k)"
    by (simp add: demo_def always_def)
  have ac: "alloc_count demo = 0" "stderr demo = []" by (simp_all add: demo_def)
  have one: "lsh_read_line ?w = Undefined (demo\<lparr>stdin := [newline], alloc_count := 2097151\<rparr>)"
    using read_line_overflow [OF s1 s2 s3] ac by simp
  let ?v = "demo\<lparr>stdin := [CHR ''a'', NUL, CHR ''b'', newline]\<rparr>"
  have t1: "stdin ?v = [CHR ''a'', NUL, CHR ''b''] @ newline # []" by simp
  have t2: "newline \<notin> set [CHR ''a'', NUL, CHR ''b'']" "length [CHR ''a'', NUL, CHR ''b''] < 2147482624"
    by (simp_all add: newline_def NUL_def)
  have t3: "\<forall>k \<le> length [CHR ''a'', NUL, CHR ''b''] div 1024. alloc_ok ?v (alloc_count ?v + k)"
    by (simp add: demo_def always_def)
  from read_line_returns_buffer [OF t1 t2 t3]
  obtain buffer w' where
    r: "lsh_read_line ?v = Returns buffer w'"
    and pre: "take (length [CHR ''a'', NUL, CHR ''b''] + 1) buffer =
                map Some [CHR ''a'', NUL, CHR ''b''] @ [Some NUL]"
    by blast
  from terminated_take [OF pre] have "c_str buffer = Some ''a''"
    by (simp add: c_str_def NUL_def)
  with r have two: "Option.bind (returned (lsh_read_line ?v)) c_str = Some ''a''" by simp
  have three: "lsh_read_line (demo\<lparr>stdin := ''ls'' @ [newline], alloc_ok := never\<rparr>) =
     Exits EXIT_FAILURE
       (demo\<lparr>stdin := ''ls'' @ [newline], alloc_ok := never, alloc_count := 1,
             stderr := [alloc_error]\<rparr>)"
    using ac by (simp add: lsh_read_line_def malloc_def never_def fprintf_stderr_def)
  from one two three show ?thesis by blast
qed

text \<open>
  C10.  When the input ends in the middle of a line, after characters that are not
  followed by a terminator, the reader returns no line at all; once it has come to the
  end of the input the process exits with the success status.  The loop then has written
  its prompt and read the input and nothing else: no token array was allocated, nothing
  was dispatched.
\<close>

theorem eof_discards_partial_line:
  assumes "newline \<notin> set (stdin w)"
  shows "(\<forall>line w'. lsh_read_line w \<noteq> Returns line w')
       \<and> (length (stdin w) < 2147482624
            \<and> (\<forall>k \<le> length (stdin w) div 1024. alloc_ok w (alloc_count w + k))
          \<longrightarrow> lsh_read_line w =
                Exits EXIT_SUCCESS
                  (w\<lparr>stdin := [],
                     alloc_count := alloc_count w + 1 + length (stdin w) div 1024\<rparr>)
              \<and> lsh_loop w =
                Exits EXIT_SUCCESS
                  (w\<lparr>stdout := stdout w @ [''> ''], stdin := [],
                     alloc_count := alloc_count w + 1 + length (stdin w) div 1024\<rparr>))"
proof (intro conjI allI impI)
  fix line w'
  show "lsh_read_line w \<noteq> Returns line w'"
    using assms by (rule lsh_read_line_no_newline)
next
  assume h: "length (stdin w) < 2147482624
    \<and> (\<forall>k \<le> length (stdin w) div 1024. alloc_ok w (alloc_count w + k))"
  with assms show "lsh_read_line w =
      Exits EXIT_SUCCESS
        (w\<lparr>stdin := [], alloc_count := alloc_count w + 1 + length (stdin w) div 1024\<rparr>)"
    by (simp add: read_line_eof)
next
  assume h: "length (stdin w) < 2147482624
    \<and> (\<forall>k \<le> length (stdin w) div 1024. alloc_ok w (alloc_count w + k))"
  let ?v = "printf ''> '' w"
  have "newline \<notin> set (stdin ?v)" "length (stdin ?v) < 2147482624"
    "\<forall>k \<le> length (stdin ?v) div 1024. alloc_ok ?v (alloc_count ?v + k)"
    using assms h by (simp_all add: printf_def)
  from read_line_eof [OF this]
  have "lsh_read_line ?v =
      Exits EXIT_SUCCESS
        (w\<lparr>stdout := stdout w @ [''> ''], stdin := [],
           alloc_count := alloc_count w + 1 + length (stdin w) div 1024\<rparr>)"
    by (simp add: printf_def)
  then show "lsh_loop w =
      Exits EXIT_SUCCESS
        (w\<lparr>stdout := stdout w @ [''> ''], stdin := [],
           alloc_count := alloc_count w + 1 + length (stdin w) div 1024\<rparr>)"
    by (simp add: lsh_loop.simps [of w])
qed

theorem eof_discards_partial_line_witness:
  "newline \<notin> set (stdin (demo\<lparr>stdin := ''rm -r''\<rparr>))
   \<and> lsh_read_line (demo\<lparr>stdin := ''rm -r''\<rparr>) =
       Exits EXIT_SUCCESS (demo\<lparr>stdin := [], alloc_count := 1\<rparr>)
   \<and> lsh_loop (demo\<lparr>stdin := ''rm -r''\<rparr>) =
       Exits EXIT_SUCCESS (demo\<lparr>stdout := [''> ''], stdin := [], alloc_count := 1\<rparr>)"
proof -
  have a: "newline \<notin> set (stdin (demo\<lparr>stdin := ''rm -r''\<rparr>))"
    by (simp add: newline_def)
  have b: "length (stdin (demo\<lparr>stdin := ''rm -r''\<rparr>)) < 2147482624
    \<and> (\<forall>k \<le> length (stdin (demo\<lparr>stdin := ''rm -r''\<rparr>)) div 1024.
          alloc_ok (demo\<lparr>stdin := ''rm -r''\<rparr>) (alloc_count (demo\<lparr>stdin := ''rm -r''\<rparr>) + k))"
    by (simp add: demo_def always_def)
  have c: "alloc_count demo = 0" "stdout demo = []" by (simp_all add: demo_def)
  show ?thesis
    using eof_discards_partial_line [OF a] a b c by simp
qed


section \<open>Properties of the tokenizer\<close>

lemma pieces_runs:
  "pieces s =
     takeWhile (\<lambda>c. c \<notin> set LSH_TOK_DELIM) s #
       (if dropWhile (\<lambda>c. c \<notin> set LSH_TOK_DELIM) s = [] then []
        else pieces (tl (dropWhile (\<lambda>c. c \<notin> set LSH_TOK_DELIM) s)))"
  by (induction s) auto

lemma pieces_not_empty: "pieces s \<noteq> []"
  by (subst pieces_runs) simp

lemma pieces_append:
  "d \<in> set LSH_TOK_DELIM \<Longrightarrow> pieces (a @ d # b) = pieces a @ pieces b"
proof (induction a)
  case Nil
  then show ?case by simp
next
  case (Cons c a)
  then show ?case using pieces_not_empty [of a] by (cases "pieces a") auto
qed

lemma spec_split_delim:
  "c \<in> set LSH_TOK_DELIM \<Longrightarrow> spec_split (c # cs) = spec_split cs"
  by (simp add: spec_split_def)

lemma spec_split_skip:
  "spec_split (dropWhile (\<lambda>c. c \<in> set LSH_TOK_DELIM) s) = spec_split s"
  by (induction s) (simp_all add: spec_split_delim)

lemma spec_split_run:
  assumes "s \<noteq> []" and "hd s \<notin> set LSH_TOK_DELIM"
  shows "spec_split s =
           takeWhile (\<lambda>c. c \<notin> set LSH_TOK_DELIM) s #
             spec_split (drop 1 (dropWhile (\<lambda>c. c \<notin> set LSH_TOK_DELIM) s))"
proof -
  let ?t = "takeWhile (\<lambda>c. c \<notin> set LSH_TOK_DELIM) s"
  let ?r = "dropWhile (\<lambda>c. c \<notin> set LSH_TOK_DELIM) s"
  have ne: "?t \<noteq> []"
    using assms by (cases s) auto
  have f: "pieces s = ?t # (if ?r = [] then [] else pieces (tl ?r))"
    by (rule pieces_runs)
  show ?thesis
  proof (cases "?r = []")
    case True
    from f have "pieces s = [?t]" by (simp only: True simp_thms if_True)
    then have "spec_split s = [?t]" using ne by (simp add: spec_split_def)
    moreover have "spec_split (drop 1 ?r) = []"
      by (simp only: True) (simp add: spec_split_def)
    ultimately show ?thesis by (simp only:)
  next
    case False
    from f have "pieces s = ?t # pieces (tl ?r)" by (simp only: False if_False)
    then have "spec_split s = ?t # spec_split (tl ?r)" using ne by (simp add: spec_split_def)
    moreover have "drop 1 ?r = tl ?r" by (simp add: drop_Suc)
    ultimately show ?thesis by (simp only:)
  qed
qed

text \<open>What the repeated calls of \<^verbatim>\<open>strtok\<close> give is what the specification asks for.\<close>

lemma spec_split_strtok:
  "spec_split s =
     (case strtok s LSH_TOK_DELIM of
        (None, saved) \<Rightarrow> []
      | (Some t, saved) \<Rightarrow> t # spec_split saved)"
proof (cases "dropWhile (\<lambda>c. c \<in> set LSH_TOK_DELIM) s = []")
  case True
  have "spec_split (dropWhile (\<lambda>c. c \<in> set LSH_TOK_DELIM) s) = spec_split []"
    by (simp only: True)
  then have "spec_split s = []"
    unfolding spec_split_skip by (simp add: spec_split_def)
  with True show ?thesis by (simp add: strtok_def)
next
  case False
  let ?s1 = "dropWhile (\<lambda>c. c \<in> set LSH_TOK_DELIM) s"
  have "hd ?s1 \<notin> set LSH_TOK_DELIM" using False hd_dropWhile [of "\<lambda>c. c \<in> set LSH_TOK_DELIM" s] by simp
  from spec_split_run [OF False this] spec_split_skip [of s] False
  show ?thesis by (simp add: strtok_def Let_def)
qed


lemma spec_split_blank:
  "\<forall>c \<in> set s. c \<in> set LSH_TOK_DELIM \<Longrightarrow> spec_split s = []"
  by (induction s) (simp_all add: spec_split_delim, simp add: spec_split_def)

lemma pieces_no_delim:
  "\<forall>t \<in> set (pieces s). \<forall>c \<in> set t. c \<notin> set LSH_TOK_DELIM"
proof (induction s)
  case Nil
  then show ?case by simp
next
  case (Cons c s)
  then show ?case using pieces_not_empty [of s] by (cases "pieces s") auto
qed

lemma concat_pieces: "concat (pieces s) = filter (\<lambda>c. c \<notin> set LSH_TOK_DELIM) s"
proof (induction s)
  case Nil
  then show ?case by simp
next
  case (Cons c s)
  then show ?case using pieces_not_empty [of s] by (cases "pieces s") auto
qed

lemma concat_drop_empty: "concat (filter (\<lambda>t. t \<noteq> []) xs) = concat xs"
  by (induction xs) auto

lemma spec_split_append:
  "d \<in> set LSH_TOK_DELIM \<Longrightarrow> spec_split (a @ d # b) = spec_split a @ spec_split b"
  by (simp add: spec_split_def pieces_append)

lemma div_64_bounds:
  fixes p :: nat
  shows "64 * (p div 64) \<le> p" and "p < 64 * (p div 64 + 1)"
proof -
  define q r where "q = p div 64" and "r = p mod 64"
  have r: "r < 64" by (simp add: r_def)
  have e: "p = 64 * q + r" by (simp add: q_def r_def)
  have "64 * q \<le> p" using e by simp
  then show "64 * (p div 64) \<le> p" by (simp only: q_def)
  have "p < 64 * (q + 1)" using r e by simp
  then show "p < 64 * (p div 64 + 1)" by (simp only: q_def)
qed

lemma split_loop_none:
  "split_loop None saved tokens position bufsize w =
     (case store tokens position None of
        None \<Rightarrow> Undefined w
      | Some tokens1 \<Rightarrow> Returns tokens1 w)"
  by (simp add: split_loop.simps [of None saved tokens position bufsize w])

lemma split_loop_some:
  "split_loop (Some t) saved tokens position bufsize w =
     (case store tokens position (Some t) of
        None \<Rightarrow> Undefined w
      | Some tokens1 \<Rightarrow>
          if position + 1 > INT_MAX then Undefined w
          else if position + 1 \<ge> bufsize then
            (if bufsize + LSH_TOK_BUFSIZE > INT_MAX then Undefined w
             else if alloc_ok w (alloc_count w) then
               split_loop (fst (strtok saved LSH_TOK_DELIM)) (snd (strtok saved LSH_TOK_DELIM))
                 (take (nat (bufsize + LSH_TOK_BUFSIZE)) tokens1 @
                  replicate (nat (bufsize + LSH_TOK_BUFSIZE) - length tokens1) None)
                 (position + 1) (bufsize + LSH_TOK_BUFSIZE)
                 (w\<lparr>alloc_count := Suc (alloc_count w)\<rparr>)
             else Exits EXIT_FAILURE
                    (fprintf_stderr alloc_error (w\<lparr>alloc_count := Suc (alloc_count w)\<rparr>)))
          else split_loop (fst (strtok saved LSH_TOK_DELIM)) (snd (strtok saved LSH_TOK_DELIM))
                 tokens1 (position + 1) bufsize w)"
  by (simp add: split_loop.simps [of "Some t" saved tokens position bufsize w] realloc_def
           split: option.splits prod.splits)

text \<open>
  The loop of the tokenizer from any state in which \<^verbatim>\<open>bufsize\<close> is the first multiple
  of 64 above \<^verbatim>\<open>position\<close> and is the size of the array: \<open>ts\<close> are the tokens still to
  come, \<open>q\<close> and \<open>q'\<close> count the growths of the array before and after.
\<close>

lemma split_loop_tokens_aux:
  assumes "ts = (case token of None \<Rightarrow> [] | Some t \<Rightarrow> t # spec_split saved)"
    and "length tokens = 64 * (q + 1)" and "64 * q \<le> p" and "p < 64 * (q + 1)"
    and "64 * q' \<le> p + length ts" and "p + length ts < 64 * (q' + 1)"
    and "p + length ts < 2147483584"
    and "\<forall>k < q' - q. alloc_ok w (alloc_count w + k)"
  shows "\<exists>tokens'.
           split_loop token saved tokens (int p) (64 * int (q + 1)) w =
             Returns tokens' (w\<lparr>alloc_count := alloc_count w + (q' - q)\<rparr>)
           \<and> take (p + length ts + 1) tokens' =
               take p tokens @ map (\<lambda>t. Some (Some t)) ts @ [Some None]"
  using assms
proof (induction ts arbitrary: token saved p q tokens w)
  case Nil
  have tok: "token = None" using Nil.prems(1) by (cases token) auto
  have "q' = q" using Nil.prems(3-6) by simp
  moreover have "w\<lparr>alloc_count := alloc_count w\<rparr> = w" by simp
  moreover have plt: "p < length tokens" using Nil.prems(2,4) by simp
  moreover have "store tokens (int p) None = Some (tokens[p := Some None])"
    using plt by (simp add: store_def)
  moreover have "take (Suc p) (tokens[p := Some None]) = take p tokens @ [Some None]"
    using plt by (simp add: take_Suc_conv_app_nth)
  ultimately show ?case unfolding tok split_loop_none by simp
next
  case (Cons t ts)
  have tok: "token = Some t" and rest: "ts = spec_split saved"
    using Cons.prems(1) by (cases token; simp)+
  let ?token = "fst (strtok saved LSH_TOK_DELIM)"
  let ?saved = "snd (strtok saved LSH_TOK_DELIM)"
  have next_ts: "ts = (case ?token of None \<Rightarrow> [] | Some t \<Rightarrow> t # spec_split ?saved)"
    unfolding rest by (subst spec_split_strtok) (simp split: prod.splits option.splits)
  let ?b1 = "tokens[p := Some (Some t)]"
  have plt: "p < length tokens" using Cons.prems(2,4) by simp
  have store1: "store tokens (int p) (Some t) = Some ?b1"
    using plt by (simp add: store_def)
  have bound: "Suc p + length ts < 2147483584" using Cons.prems(7) by simp
  have hi: "64 * q' \<le> Suc p + length ts" "Suc p + length ts < 64 * (q' + 1)"
    using Cons.prems(5,6) by simp_all
  have tk: "take (Suc p) ?b1 = take p tokens @ [Some (Some t)]"
    using plt by (simp add: take_Suc_conv_app_nth)
  have no_ov: "\<not> int p + 1 > INT_MAX" using bound by (simp add: INT_MAX_def)
  have suc: "int (Suc p) = int p + 1" by simp
  show ?case
  proof (cases "64 * (q + 1) \<le> p + 1")
    case True
    let ?w2 = "w\<lparr>alloc_count := Suc (alloc_count w)\<rparr>"
    let ?n = "nat (64 * int (q + 1) + LSH_TOK_BUFSIZE)"
    let ?b2 = "take ?n ?b1 @ replicate (?n - length ?b1) None"
    have qq: "Suc q \<le> q'" using True hi(2) by simp
    with Cons.prems(8) have ok: "alloc_ok w (alloc_count w)" by force
    have n2: "?n = 64 * (Suc q + 1)"
      by (simp add: LSH_TOK_BUFSIZE_def nat_add_distrib nat_mult_distrib)
    have len2: "length ?b2 = 64 * (Suc q + 1)"
      using Cons.prems(2) unfolding n2 by simp
    have tk2: "take (Suc p) ?b2 = take p tokens @ [Some (Some t)]"
      using Cons.prems(2) tk plt unfolding n2 by simp
    have grow: "int p + 1 \<ge> 64 * int (q + 1)" using True by linarith
    have fits: "\<not> 64 * int (q + 1) + LSH_TOK_BUFSIZE > INT_MAX"
      using True Cons.prems(4) bound by (simp add: INT_MAX_def LSH_TOK_BUFSIZE_def)
    have bs: "64 * int (q + 1) + LSH_TOK_BUFSIZE = 64 * int (Suc q + 1)"
      by (simp add: LSH_TOK_BUFSIZE_def)
    have step: "split_loop token saved tokens (int p) (64 * int (q + 1)) w =
        split_loop ?token ?saved ?b2 (int (Suc p)) (64 * int (Suc q + 1)) ?w2"
      unfolding tok split_loop_some store1 suc bs [symmetric]
      using no_ov grow fits ok by simp
    have alloc2: "\<forall>k < q' - Suc q. alloc_ok ?w2 (alloc_count ?w2 + k)"
    proof (intro allI impI)
      fix k assume "k < q' - Suc q"
      then have "Suc k < q' - q" by simp
      with Cons.prems(8) have "alloc_ok w (alloc_count w + Suc k)" by blast
      then show "alloc_ok ?w2 (alloc_count ?w2 + k)" by simp
    qed
    have lo2: "64 * Suc q \<le> Suc p" using True by simp
    have up2: "Suc p < 64 * (Suc q + 1)" using Cons.prems(4) by simp
    from Cons.IH [OF next_ts len2 lo2 up2 hi bound alloc2]
    obtain tokens' where
      r: "split_loop ?token ?saved ?b2 (int (Suc p)) (64 * int (Suc q + 1)) ?w2 =
            Returns tokens' (?w2\<lparr>alloc_count := alloc_count ?w2 + (q' - Suc q)\<rparr>)"
      and pre: "take (Suc p + length ts + 1) tokens' =
                  take (Suc p) ?b2 @ map (\<lambda>t. Some (Some t)) ts @ [Some None]"
      by blast
    have w_eq: "?w2\<lparr>alloc_count := alloc_count ?w2 + (q' - Suc q)\<rparr> =
        w\<lparr>alloc_count := alloc_count w + (q' - q)\<rparr>"
      using qq by simp
    have "split_loop token saved tokens (int p) (64 * int (q + 1)) w =
        Returns tokens' (w\<lparr>alloc_count := alloc_count w + (q' - q)\<rparr>)"
      using step r unfolding w_eq by simp
    moreover have "take (p + length (t # ts) + 1) tokens' =
        take p tokens @ map (\<lambda>t. Some (Some t)) (t # ts) @ [Some None]"
      using pre tk2 by simp
    ultimately show ?thesis by blast
  next
    case False
    have len1: "length ?b1 = 64 * (q + 1)" using Cons.prems(2) by simp
    have nogrow: "\<not> int p + 1 \<ge> 64 * int (q + 1)" using False by linarith
    have step: "split_loop token saved tokens (int p) (64 * int (q + 1)) w =
        split_loop ?token ?saved ?b1 (int (Suc p)) (64 * int (q + 1)) w"
      unfolding tok split_loop_some store1 suc
      using no_ov nogrow by simp
    have lo2: "64 * q \<le> Suc p" using Cons.prems(3) by simp
    have up2: "Suc p < 64 * (q + 1)" using False by simp
    from Cons.IH [OF next_ts len1 lo2 up2 hi bound Cons.prems(8)]
    obtain tokens' where
      r: "split_loop ?token ?saved ?b1 (int (Suc p)) (64 * int (q + 1)) w =
            Returns tokens' (w\<lparr>alloc_count := alloc_count w + (q' - q)\<rparr>)"
      and pre: "take (Suc p + length ts + 1) tokens' =
                  take (Suc p) ?b1 @ map (\<lambda>t. Some (Some t)) ts @ [Some None]"
      by blast
    have "split_loop token saved tokens (int p) (64 * int (q + 1)) w =
        Returns tokens' (w\<lparr>alloc_count := alloc_count w + (q' - q)\<rparr>)"
      using step r by simp
    moreover have "take (p + length (t # ts) + 1) tokens' =
        take p tokens @ map (\<lambda>t. Some (Some t)) (t # ts) @ [Some None]"
      using pre tk by simp
    ultimately show ?thesis by blast
  qed
qed


lemma split_line_returns:
  assumes "c_str line = Some s"
    and "length (spec_split s) < 2147483584"
    and "\<forall>k \<le> length (spec_split s) div 64. alloc_ok w (alloc_count w + k)"
  shows "\<exists>tokens.
           lsh_split_line line w =
             Returns tokens
               (w\<lparr>alloc_count := alloc_count w + 1 + length (spec_split s) div 64\<rparr>)
           \<and> argv tokens = Some (spec_split s)"
proof -
  let ?ts = "spec_split s"
  let ?q = "length ?ts div 64"
  let ?w1 = "w\<lparr>alloc_count := Suc (alloc_count w)\<rparr>"
  let ?b = "replicate (nat LSH_TOK_BUFSIZE) (None :: string option option)"
  let ?token = "fst (strtok s LSH_TOK_DELIM)"
  let ?saved = "snd (strtok s LSH_TOK_DELIM)"
  have ok: "alloc_ok w (alloc_count w)" using assms(3) by force
  have start: "lsh_split_line line w = split_loop ?token ?saved ?b (int 0) (64 * int (0 + 1)) ?w1"
    using ok assms(1)
    by (simp add: lsh_split_line_def malloc_def LSH_TOK_BUFSIZE_def split: prod.splits)
  have a1: "?ts = (case ?token of None \<Rightarrow> [] | Some t \<Rightarrow> t # spec_split ?saved)"
    by (subst spec_split_strtok) (simp split: prod.splits option.splits)
  have a2: "length ?b = 64 * (0 + 1)" by (simp add: LSH_TOK_BUFSIZE_def)
  have a3: "64 * 0 \<le> (0::nat)" and a4: "(0::nat) < 64 * (0 + 1)" by simp_all
  have a5: "64 * ?q \<le> 0 + length ?ts" using div_64_bounds(1) [of "length ?ts"] by simp
  have a6: "0 + length ?ts < 64 * (?q + 1)" using div_64_bounds(2) [of "length ?ts"] by simp
  have a7: "0 + length ?ts < 2147483584" using assms(2) by simp
  have a8: "\<forall>k < ?q - 0. alloc_ok ?w1 (alloc_count ?w1 + k)"
  proof (intro allI impI)
    fix k assume "k < ?q - 0"
    then have "Suc k \<le> ?q" by simp
    with assms(3) have "alloc_ok w (alloc_count w + Suc k)" by blast
    then show "alloc_ok ?w1 (alloc_count ?w1 + k)" by simp
  qed
  from split_loop_tokens_aux [OF a1 a2 a3 a4 a5 a6 a7 a8]
  obtain tokens' where
    r: "split_loop ?token ?saved ?b (int 0) (64 * int (0 + 1)) ?w1 =
          Returns tokens' (?w1\<lparr>alloc_count := alloc_count ?w1 + (?q - 0)\<rparr>)"
    and pre: "take (0 + length ?ts + 1) tokens' =
                take 0 ?b @ map (\<lambda>t. Some (Some t)) ?ts @ [Some None]"
    by blast
  have ret: "lsh_split_line line w =
      Returns tokens' (w\<lparr>alloc_count := alloc_count w + 1 + ?q\<rparr>)"
    using start r by simp
  have "take (length (map Some ?ts) + 1) tokens' = map Some (map Some ?ts) @ [Some None]"
    using pre by simp
  from terminated_take [OF this]
  have "terminated None tokens' = Some (map Some ?ts)"
    by (simp add: takeWhile_eq_all_conv)
  then have "argv tokens' = Some ?ts" by (simp add: argv_def comp_def)
  with ret show ?thesis by blast
qed

text \<open>
  C6.  On a line whose tokens fit the counters of the tokenizer, and with the
  allocations it asks for succeeding, \<^verbatim>\<open>lsh_split_line\<close> returns the argument list that
  the specification describes: the pieces between delimiters that are not empty, in
  their order.  So a line of delimiters only gives the empty list, no token is empty or
  holds a delimiter, the tokens put together are the characters of the line that are not
  delimiters, and a delimiter next to another separates no more than one alone.
\<close>

theorem split_line_tokens:
  assumes "c_str line = Some s"
    and "length (spec_split s) < 2147483584"
    and "\<forall>k \<le> length (spec_split s) div 64. alloc_ok w (alloc_count w + k)"
  shows "\<exists>tokens args.
           lsh_split_line line w =
             Returns tokens
               (w\<lparr>alloc_count := alloc_count w + 1 + length (spec_split s) div 64\<rparr>)
           \<and> argv tokens = Some args
           \<and> args = spec_split s
           \<and> ((\<forall>c \<in> set s. c \<in> set LSH_TOK_DELIM) \<longrightarrow> args = [])
           \<and> (\<forall>t \<in> set args. t \<noteq> [] \<and> (\<forall>c \<in> set t. c \<notin> set LSH_TOK_DELIM))
           \<and> concat args = filter (\<lambda>c. c \<notin> set LSH_TOK_DELIM) s
           \<and> (\<forall>a d d' b. s = a @ d # d' # b \<and> d \<in> set LSH_TOK_DELIM \<and> d' \<in> set LSH_TOK_DELIM
                \<longrightarrow> args = spec_split (a @ d # b))"
proof -
  from split_line_returns [OF assms]
  obtain tokens where
    r: "lsh_split_line line w =
          Returns tokens
            (w\<lparr>alloc_count := alloc_count w + 1 + length (spec_split s) div 64\<rparr>)"
    and a: "argv tokens = Some (spec_split s)"
    by blast
  have blank: "(\<forall>c \<in> set s. c \<in> set LSH_TOK_DELIM) \<longrightarrow> spec_split s = []"
    using spec_split_blank by blast
  have clean: "\<forall>t \<in> set (spec_split s). t \<noteq> [] \<and> (\<forall>c \<in> set t. c \<notin> set LSH_TOK_DELIM)"
    using pieces_no_delim [of s] by (auto simp: spec_split_def)
  have order: "concat (spec_split s) = filter (\<lambda>c. c \<notin> set LSH_TOK_DELIM) s"
    by (simp add: spec_split_def concat_drop_empty concat_pieces)
  have runs: "\<forall>a d d' b. s = a @ d # d' # b \<and> d \<in> set LSH_TOK_DELIM \<and> d' \<in> set LSH_TOK_DELIM
      \<longrightarrow> spec_split s = spec_split (a @ d # b)"
    by (auto simp: spec_split_append spec_split_delim)
  from r a blank clean order runs show ?thesis by blast
qed

theorem split_line_tokens_witness:
  "Option.bind (returned (lsh_split_line [Some NUL] demo)) argv = Some []
   \<and> Option.bind (returned (lsh_split_line (map Some ''   '' @ [Some NUL]) demo)) argv = Some []
   \<and> Option.bind
       (returned (lsh_split_line (map Some (''a  b'' @ [CHR 0x09] @ ''c'') @ [Some NUL]) demo))
       argv = Some [''a'', ''b'', ''c'']"
proof -
  have ok: "\<And>n. \<forall>k \<le> n. alloc_ok demo (alloc_count demo + k)"
    by (simp add: demo_def always_def)
  have c1: "c_str [Some NUL] = Some ''''" by (simp add: c_str_def)
  have c2: "c_str (map Some ''   '' @ [Some NUL]) = Some ''   ''"
    by (simp add: c_str_def NUL_def)
  have c3: "c_str (map Some (''a  b'' @ [CHR 0x09] @ ''c'') @ [Some NUL]) =
      Some (''a  b'' @ [CHR 0x09] @ ''c'')"
    by (simp add: c_str_def NUL_def)
  have s1: "spec_split '''' = []" by (simp add: spec_split_def)
  have s2: "spec_split ''   '' = []" by (simp add: spec_split_def LSH_TOK_DELIM_def)
  have s3: "spec_split (''a  b'' @ [CHR 0x09] @ ''c'') = [''a'', ''b'', ''c'']"
    by (simp add: spec_split_def LSH_TOK_DELIM_def)
  have l: "length (spec_split '''') < 2147483584" "length (spec_split ''   '') < 2147483584"
    "length (spec_split (''a  b'' @ [CHR 0x09] @ ''c'')) < 2147483584"
    by (simp_all only: s1 s2 s3) simp_all
  from split_line_tokens [OF c1 l(1) ok]
  have "Option.bind (returned (lsh_split_line [Some NUL] demo)) argv = Some []"
    unfolding s1 by auto
  moreover from split_line_tokens [OF c2 l(2) ok]
  have "Option.bind (returned (lsh_split_line (map Some ''   '' @ [Some NUL]) demo)) argv = Some []"
    unfolding s2 by auto
  moreover from split_line_tokens [OF c3 l(3) ok]
  have "Option.bind
       (returned (lsh_split_line (map Some (''a  b'' @ [CHR 0x09] @ ''c'') @ [Some NUL]) demo))
       argv = Some [''a'', ''b'', ''c'']"
    unfolding s3 by auto
  ultimately show ?thesis by blast
qed


section \<open>Properties of the loop and of the exit status\<close>

lemma range_join:
  fixes a b c :: nat
  assumes "\<forall>k. a \<le> k \<and> k < b \<longrightarrow> P k" and "\<forall>k. b \<le> k \<and> k < c \<longrightarrow> P k"
  shows "\<forall>k. a \<le> k \<and> k < c \<longrightarrow> P k"
proof (intro allI impI)
  fix k assume k: "a \<le> k \<and> k < c"
  show "P k"
  proof (cases "k < b")
    case True
    with k assms(1) show ?thesis by blast
  next
    case False
    with k assms(2) show ?thesis by (simp add: not_less)
  qed
qed

lemma orderly_after:
  assumes ok: "alloc_ok v1 = alloc_ok v" and le: "alloc_count v \<le> alloc_count v1"
    and pre: "\<forall>k. alloc_count v \<le> k \<and> k < alloc_count v1 \<longrightarrow> alloc_ok v k"
    and o: "orderly v1 out"
  shows "orderly v out"
proof -
  have a: "alloc_ok (world_of out) = alloc_ok v" and b: "alloc_count v1 \<le> alloc_count (world_of out)"
    using o ok by (simp_all add: orderly_def)
  have join: "\<And>n. \<forall>k. alloc_count v1 \<le> k \<and> k < n \<longrightarrow> alloc_ok v1 k \<Longrightarrow>
      \<forall>k. alloc_count v \<le> k \<and> k < n \<longrightarrow> alloc_ok v k"
    using range_join [OF pre] ok by simp
  show ?thesis
  proof (cases out)
    case (Exits c v')
    from o Exits consider
      (eof) "c = EXIT_SUCCESS" "stdin v' = []"
        "\<forall>k. alloc_count v1 \<le> k \<and> k < alloc_count v' \<longrightarrow> alloc_ok v1 k"
    | (failed) "c = EXIT_FAILURE" "alloc_count v1 < alloc_count v'"
        "\<not> alloc_ok v1 (alloc_count v' - 1)" "stderr v' \<noteq> []" "last (stderr v') = alloc_error"
        "\<forall>k. alloc_count v1 \<le> k \<and> k < alloc_count v' - 1 \<longrightarrow> alloc_ok v1 k"
      unfolding orderly_def by auto
    then show ?thesis
    proof cases
      case eof
      from join [OF eof(3)] eof(1,2) a b le Exits show ?thesis
        unfolding orderly_def by simp
    next
      case failed
      have "alloc_count v < alloc_count v'" using failed(2) le by simp
      moreover have "\<not> alloc_ok v (alloc_count v' - 1)" using failed(3) ok by simp
      ultimately show ?thesis
        using join [OF failed(6)] failed(1,4,5) a b le Exits
        unfolding orderly_def by simp
    qed
  next
    case (Returns x v')
    with o have "\<forall>k. alloc_count v1 \<le> k \<and> k < alloc_count v' \<longrightarrow> alloc_ok v1 k"
      by (simp add: orderly_def)
    from join [OF this] a b le Returns show ?thesis by (simp add: orderly_def)
  next
    case (Hangs v')
    with o have "\<forall>k. alloc_count v1 \<le> k \<and> k < alloc_count v' \<longrightarrow> alloc_ok v1 k"
      by (simp add: orderly_def)
    from join [OF this] a b le Hangs show ?thesis by (simp add: orderly_def)
  next
    case (Undefined v')
    with o have "\<forall>k. alloc_count v1 \<le> k \<and> k < alloc_count v' \<longrightarrow> alloc_ok v1 k"
      by (simp add: orderly_def)
    from join [OF this] a b le Undefined show ?thesis by (simp add: orderly_def)
  qed
qed

lemma orderly_step:
  assumes "alloc_ok v1 = alloc_ok v" and "alloc_count v1 = alloc_count v" and "orderly v1 out"
  shows "orderly v out"
  using assms by (intro orderly_after [of v1 v out]) auto

lemma orderly_alloc:
  assumes "alloc_ok v1 = alloc_ok v" and "alloc_count v1 = Suc (alloc_count v)"
    and "alloc_ok v (alloc_count v)" and "orderly v1 out"
  shows "orderly v out"
proof (rule orderly_after [of v1 v out])
  show "\<forall>k. alloc_count v \<le> k \<and> k < alloc_count v1 \<longrightarrow> alloc_ok v k"
  proof (intro allI impI)
    fix k assume "alloc_count v \<le> k \<and> k < alloc_count v1"
    then have "k = alloc_count v" using assms(2) by simp
    then show "alloc_ok v k" using assms(3) by simp
  qed
qed (use assms in simp_all)

lemma orderly_same:
  assumes "alloc_ok v' = alloc_ok v" and "alloc_count v' = alloc_count v"
  shows "orderly v (Returns x v')" and "orderly v (Hangs v')" and "orderly v (Undefined v')"
    and "stdin v' = [] \<Longrightarrow> orderly v (Exits EXIT_SUCCESS v')"
  using assms by (auto simp: orderly_def)

lemma orderly_failure:
  assumes "alloc_ok v' = alloc_ok v" and "alloc_count v' = Suc (alloc_count v)"
    and "\<not> alloc_ok v (alloc_count v)"
    and "stderr v' \<noteq> []" and "last (stderr v') = alloc_error"
  shows "orderly v (Exits EXIT_FAILURE v')"
  using assms by (auto simp: orderly_def)

lemma read_loop_orderly: "orderly w (read_loop buffer position bufsize w)"
proof (induction "stdin w" arbitrary: buffer position bufsize w)
  case Nil
  then show ?case by (simp add: read_loop_eof orderly_same)
next
  case (Cons c cs)
  note eq = Cons.hyps(2) [symmetric]
  have ih: "\<And>b p s v. stdin v = cs \<Longrightarrow> orderly v (read_loop b p s v)"
    using Cons.hyps(1) by simp
  show ?case
  proof (cases "c = newline")
    case True
    then show ?thesis
      by (simp add: read_loop_newline [OF eq [unfolded True]] orderly_same split: option.splits)
  next
    case False
    let ?w1 = "w\<lparr>stdin := cs\<rparr>"
    let ?w2 = "w\<lparr>stdin := cs, alloc_count := Suc (alloc_count w)\<rparr>"
    have u: "orderly w (Undefined ?w1)" by (simp add: orderly_same)
    have f: "\<not> alloc_ok w (alloc_count w) \<Longrightarrow>
        orderly w (Exits EXIT_FAILURE (fprintf_stderr alloc_error ?w2))"
      by (rule orderly_failure) (simp_all add: fprintf_stderr_def)
    have r1: "\<And>b p s. orderly w (read_loop b p s ?w1)"
      by (rule orderly_step [of ?w1]) (simp_all add: ih)
    have r2: "\<And>b p s. alloc_ok w (alloc_count w) \<Longrightarrow> orderly w (read_loop b p s ?w2)"
      by (rule orderly_alloc [of ?w2]) (simp_all add: ih)
    show ?thesis
      unfolding read_loop_char [OF eq False]
      using u f r1 r2 by (auto split: option.splits)
  qed
qed

lemma lsh_read_line_orderly: "orderly w (lsh_read_line w)"
proof (cases "alloc_ok w (alloc_count w)")
  case True
  let ?w1 = "w\<lparr>alloc_count := Suc (alloc_count w)\<rparr>"
  have "orderly w (read_loop (replicate (nat LSH_RL_BUFSIZE) None) 0 LSH_RL_BUFSIZE ?w1)"
    by (rule orderly_alloc [of ?w1]) (simp_all add: True read_loop_orderly)
  with True show ?thesis by (simp add: lsh_read_line_def malloc_def)
next
  case False
  have "orderly w (Exits EXIT_FAILURE
      (fprintf_stderr alloc_error (w\<lparr>alloc_count := Suc (alloc_count w)\<rparr>)))"
    by (rule orderly_failure) (simp_all add: fprintf_stderr_def False)
  with False show ?thesis by (simp add: lsh_read_line_def malloc_def)
qed

lemma split_loop_orderly: "orderly w (split_loop token saved tokens position bufsize w)"
proof (induction "case token of None \<Rightarrow> 0 | Some t \<Rightarrow> Suc (length saved)"
    arbitrary: token saved tokens position bufsize w rule: less_induct)
  case less
  show ?case
  proof (cases token)
    case None
    then show ?thesis by (simp add: split_loop_none orderly_same split: option.splits)
  next
    case (Some t)
    let ?token = "fst (strtok saved LSH_TOK_DELIM)"
    let ?saved = "snd (strtok saved LSH_TOK_DELIM)"
    let ?w2 = "w\<lparr>alloc_count := Suc (alloc_count w)\<rparr>"
    have smaller: "(case ?token of None \<Rightarrow> 0 | Some t \<Rightarrow> Suc (length ?saved)) <
        (case token of None \<Rightarrow> 0 | Some t \<Rightarrow> Suc (length saved))"
      using Some strtok_shorter [of saved LSH_TOK_DELIM]
      by (cases "strtok saved LSH_TOK_DELIM") (auto split: option.splits)
    have ih: "\<And>b p s v. orderly v (split_loop ?token ?saved b p s v)"
      using less [OF smaller] .
    have u: "orderly w (Undefined w)" by (simp add: orderly_same)
    have f: "\<not> alloc_ok w (alloc_count w) \<Longrightarrow>
        orderly w (Exits EXIT_FAILURE (fprintf_stderr alloc_error ?w2))"
      by (rule orderly_failure) (simp_all add: fprintf_stderr_def)
    have r2: "\<And>b p s. alloc_ok w (alloc_count w) \<Longrightarrow>
        orderly w (split_loop ?token ?saved b p s ?w2)"
      by (rule orderly_alloc [of ?w2]) (simp_all add: ih)
    show ?thesis
      unfolding Some split_loop_some
      using u f ih r2 by (auto split: option.splits)
  qed
qed

lemma lsh_split_line_orderly: "orderly w (lsh_split_line line w)"
proof (cases "alloc_ok w (alloc_count w)")
  case True
  let ?w1 = "w\<lparr>alloc_count := Suc (alloc_count w)\<rparr>"
  have a: "\<And>t s b p n. orderly w (split_loop t s b p n ?w1)"
    by (rule orderly_alloc [of ?w1]) (simp_all add: True split_loop_orderly)
  have b: "orderly w (Undefined ?w1)"
    by (rule orderly_alloc [of ?w1]) (simp_all add: True orderly_same)
  from True a b show ?thesis
    by (auto simp: lsh_split_line_def malloc_def split: option.splits prod.splits)
next
  case False
  have "orderly w (Exits EXIT_FAILURE
      (fprintf_stderr alloc_error (w\<lparr>alloc_count := Suc (alloc_count w)\<rparr>)))"
    by (rule orderly_failure) (simp_all add: fprintf_stderr_def False)
  with False show ?thesis by (simp add: lsh_split_line_def malloc_def)
qed

lemma lsh_execute_orderly: "orderly w (lsh_execute args w)"
proof -
  have "orderly w (lsh_launch args w)"
    by (simp add: lsh_launch_cases orderly_same perror_def child_reports_def
             split: fork_outcome.splits option.splits child.splits)
  moreover have "orderly w (lsh_cd args w)"
    by (simp add: lsh_cd_def orderly_same perror_def fprintf_stderr_def split: sum.splits)
  moreover have "orderly w (lsh_help args w)"
    by (simp add: lsh_help_def orderly_same printf_def lsh_num_builtins_def builtin_str_def)
  moreover have "orderly w (lsh_exit args w)"
    by (simp add: lsh_exit_def orderly_same)
  ultimately show ?thesis by (simp add: lsh_execute_cases orderly_same)
qed


lemma orderly_bind:
  assumes "orderly v (Returns x v1)" and "orderly v1 out"
  shows "orderly v out"
  using assms(1) by (intro orderly_after [OF _ _ _ assms(2)]) (simp_all add: orderly_def)

lemma orderly_retype:
  "orderly v (Exits c v' :: 'a outcome) \<Longrightarrow> orderly v (Exits c v' :: 'b outcome)"
  "orderly v (Hangs v' :: 'a outcome) \<Longrightarrow> orderly v (Hangs v' :: 'b outcome)"
  "orderly v (Undefined v' :: 'a outcome) \<Longrightarrow> orderly v (Undefined v' :: 'b outcome)"
  "orderly v (Returns x v' :: 'a outcome) \<Longrightarrow> orderly v (Returns y v' :: 'b outcome)"
  by (simp_all add: orderly_def)

lemma lsh_loop_orderly: "orderly w (lsh_loop w)"
proof (induction w rule: lsh_loop.induct)
  case (1 w)
  let ?v = "printf ''> '' w"
  have start: "\<And>out :: unit outcome. orderly ?v out \<Longrightarrow> orderly w out"
    by (rule orderly_step [of ?v]) (simp_all add: printf_def)
  have rd: "orderly ?v (lsh_read_line ?v)" by (rule lsh_read_line_orderly)
  show ?case
  proof (cases "lsh_read_line ?v")
    case r: (Returns line w1)
    have sp: "orderly w1 (lsh_split_line line w1)" by (rule lsh_split_line_orderly)
    have to_w1: "\<And>out :: unit outcome. orderly w1 out \<Longrightarrow> orderly w out"
      using rd unfolding r by (intro start) (rule orderly_bind)
    show ?thesis
    proof (cases "lsh_split_line line w1")
      case s: (Returns tokens w2)
      have to_w2: "\<And>out :: unit outcome. orderly w2 out \<Longrightarrow> orderly w out"
        using sp unfolding s by (intro to_w1) (rule orderly_bind)
      show ?thesis
      proof (cases "argv tokens")
        case None
        have "orderly w2 (Undefined w2 :: unit outcome)" by (simp add: orderly_same)
        then show ?thesis using r s None by (simp add: lsh_loop.simps [of w] to_w2)
      next
        case a: (Some args)
        have ex: "orderly w2 (lsh_execute args w2)" by (rule lsh_execute_orderly)
        show ?thesis
        proof (cases "lsh_execute args w2")
          case e: (Returns status w3)
          have to_w3: "\<And>out :: unit outcome. orderly w3 out \<Longrightarrow> orderly w out"
            using ex unfolding e by (intro to_w2) (rule orderly_bind)
          show ?thesis
          proof (cases "status = 0")
            case True
            have "orderly w3 (Returns () w3)" by (simp add: orderly_same)
            then show ?thesis using r s a e True by (simp add: lsh_loop.simps [of w] to_w3)
          next
            case False
            from "1.IH" [OF r s a e False] have "orderly w3 (lsh_loop w3)" .
            then show ?thesis using r s a e False by (simp add: lsh_loop.simps [of w] to_w3)
          qed
        next
          case e: (Exits c w3)
          from ex have "orderly w2 (Exits c w3 :: unit outcome)"
            unfolding e by (rule orderly_retype)
          then show ?thesis using r s a e by (simp add: lsh_loop.simps [of w] to_w2)
        next
          case e: (Hangs w3)
          from ex have "orderly w2 (Hangs w3 :: unit outcome)"
            unfolding e by (rule orderly_retype)
          then show ?thesis using r s a e by (simp add: lsh_loop.simps [of w] to_w2)
        next
          case e: (Undefined w3)
          from ex have "orderly w2 (Undefined w3 :: unit outcome)"
            unfolding e by (rule orderly_retype)
          then show ?thesis using r s a e by (simp add: lsh_loop.simps [of w] to_w2)
        qed
      qed
    next
      case s: (Exits c w2)
      from sp have "orderly w1 (Exits c w2 :: unit outcome)"
        unfolding s by (rule orderly_retype)
      then show ?thesis using r s by (simp add: lsh_loop.simps [of w] to_w1)
    next
      case s: (Hangs w2)
      from sp have "orderly w1 (Hangs w2 :: unit outcome)"
        unfolding s by (rule orderly_retype)
      then show ?thesis using r s by (simp add: lsh_loop.simps [of w] to_w1)
    next
      case s: (Undefined w2)
      from sp have "orderly w1 (Undefined w2 :: unit outcome)"
        unfolding s by (rule orderly_retype)
      then show ?thesis using r s by (simp add: lsh_loop.simps [of w] to_w1)
    qed
  next
    case r: (Exits c w1)
    from rd have "orderly ?v (Exits c w1 :: unit outcome)"
      unfolding r by (rule orderly_retype)
    then show ?thesis using r by (simp add: lsh_loop.simps [of w] start)
  next
    case r: (Hangs w1)
    from rd have "orderly ?v (Hangs w1 :: unit outcome)"
      unfolding r by (rule orderly_retype)
    then show ?thesis using r by (simp add: lsh_loop.simps [of w] start)
  next
    case r: (Undefined w1)
    from rd have "orderly ?v (Undefined w1 :: unit outcome)"
      unfolding r by (rule orderly_retype)
    then show ?thesis using r by (simp add: lsh_loop.simps [of w] start)
  qed
qed

lemma iterates_loop: "iterates v0 v \<Longrightarrow> lsh_loop v0 = lsh_loop v"
proof (induction rule: iterates.induct)
  case (entered v0)
  show ?case by simp
next
  case (turn v0 v line v1 tokens v2 args status v3)
  then show ?case by (simp add: lsh_loop.simps [of v])
qed


subsection \<open>The checks on the example world\<close>

lemma scan_words_unfold:
  "0 < k \<Longrightarrow>
     scan_words k s =
       (case scan_word s of None \<Rightarrow> [] | Some (x, rest) \<Rightarrow> x # scan_words (k - 1) rest)"
  by (cases k) (auto split: option.splits)

lemma read_pw_unfold:
  "0 < n \<Longrightarrow>
     read_pw n typed w =
       (case getch w of
          (single_pw, w1) \<Rightarrow>
            if of_char single_pw = (10::nat) then (typed, w1)
            else read_pw (n - 1) (typed @ [single_pw]) w1)"
  by (cases n) (auto split: prod.splits)

lemma demo_client_ip: "client_ip (demo\<lparr>stdin := x, alloc_ok := a\<rparr>) = Some ''10.0.0.5''"
  by (simp add: client_ip_def demo_def demo_environ_def scan_words_unfold scan_word_def
        isspace_def BUF_SIZE_def Let_def)

lemma demo_white_list:
  "white_list ''10.0.0.5'' (demo\<lparr>stdin := x, alloc_ok := a\<rparr>) =
     Returns 0 (demo\<lparr>stdin := x, alloc_ok := a\<rparr>)"
  by (simp add: white_list_def demo_def demo_files_def read_list.simps fgets_def BUF_SIZE_def
        newline_def NUL_def c_string_def strip_last_def Let_def)

lemma demo_check_logon:
  "check_logon ''10.0.0.5'' (demo\<lparr>stdin := x, alloc_ok := a\<rparr>) =
     Returns 0 (demo\<lparr>stdin := x, alloc_ok := a\<rparr>)"
  by (simp add: check_logon_def demo_def demo_files_def get_pid_def atoi_def INT_MAX_def
        decimal_def digits.simps fgets_def BUF_SIZE_def MAX_LOGIN_def
        newline_def NUL_def c_string_def scan_word_def isspace_def Let_def scan_words_unfold)

lemma demo_login:
  "login ''10.0.0.5'' (demo\<lparr>stdin := login_input @ x, alloc_ok := a\<rparr>) =
     Returns () (demo\<lparr>stdin := x, alloc_ok := a, stdout := demo_stdout, appended := demo_log\<rparr>)"
  by (simp add: login_def demo_def demo_files_def login_input_def fgets_def BUF_SIZE_def
        newline_def NUL_def c_string_def scan_account_def scan_word_def isspace_def Let_def
        strip_last_def printf_def getch_def getchar_def array_string_def enc_pw_def
        signed_char_def append_decimal_def decimal_def digits.simps login_accept_def
        log_line_def cur_time_def store_login_log_def demo_append_ok_def read_pw_unfold
        demo_stdout_def demo_log_def)

lemma demo_main_checks:
  "main_checks (demo\<lparr>stdin := login_input @ x, alloc_ok := a\<rparr>) =
     Returns () (demo\<lparr>stdin := x, alloc_ok := a, stdout := demo_stdout, appended := demo_log\<rparr>)"
  by (simp add: main_checks_def demo_client_ip demo_white_list demo_check_logon demo_login
        seq_def)


text \<open>
  C8.  Once the checks have let the process into the loop, at the start of any turn of
  the loop: when the input is at its end (and the reader gets its buffer) the process
  exits with the success status; when the line read is the \<^verbatim>\<open>exit\<close> builtin the loop
  ends and \<^verbatim>\<open>main\<close> returns the success status; and when an allocation of the reader or
  of the tokenizer fails, the first one or one for growth, the process exits with the
  failure status right there, without a further allocation, after the message on the
  error stream.  \<^verbatim>\<open>main\<close> returns no other status, and the loop exits with no other.
\<close>

theorem exit_status_of_shell:
  assumes "main_checks w = Returns u v0" and "iterates v0 v"
  shows "(stdin v = [] \<and> alloc_ok v (alloc_count v) \<longrightarrow>
            main w =
              Exits EXIT_SUCCESS
                (v\<lparr>stdout := stdout v @ [''> ''], alloc_count := Suc (alloc_count v)\<rparr>))
       \<and> (\<forall>line v1 tokens v2 rest.
            lsh_read_line (printf ''> '' v) = Returns line v1 \<and>
            lsh_split_line line v1 = Returns tokens v2 \<and>
            argv tokens = Some (''exit'' # rest)
            \<longrightarrow> main w = Returns EXIT_SUCCESS v2)
       \<and> (\<forall>k. alloc_count v \<le> k \<and> k < alloc_count (world_of (main w)) \<and> \<not> alloc_ok v k
            \<longrightarrow> main w = Exits EXIT_FAILURE (world_of (main w))
                \<and> alloc_count (world_of (main w)) = Suc k
                \<and> last (stderr (world_of (main w))) = alloc_error)
       \<and> (\<forall>c w'. main w = Returns c w' \<longrightarrow> c = EXIT_SUCCESS)
       \<and> (\<forall>c w'. main w = Exits c w' \<longrightarrow>
            (c = EXIT_SUCCESS \<and> stdin w' = []) \<or>
            (c = EXIT_FAILURE \<and> \<not> alloc_ok v (alloc_count w' - 1)))"
proof -
  have m: "main w = seq (lsh_loop v) (\<lambda>u w4. Returns EXIT_SUCCESS w4)"
    using assms by (simp add: main_def seq_def iterates_loop)
  have o: "orderly v (lsh_loop v)" by (rule lsh_loop_orderly)
  have wo: "world_of (main w) = world_of (lsh_loop v)"
    unfolding m by (cases "lsh_loop v") (simp_all add: seq_def)
  have eof: "main w =
      Exits EXIT_SUCCESS (v\<lparr>stdout := stdout v @ [''> ''], alloc_count := Suc (alloc_count v)\<rparr>)"
    if "stdin v = [] \<and> alloc_ok v (alloc_count v)"
  proof -
    let ?p = "printf ''> '' v"
    have "newline \<notin> set (stdin ?p)" "length (stdin ?p) < 2147482624"
      "\<forall>k \<le> length (stdin ?p) div 1024. alloc_ok ?p (alloc_count ?p + k)"
      using that by (simp_all add: printf_def)
    from read_line_eof [OF this] that
    have "lsh_read_line ?p =
        Exits EXIT_SUCCESS (v\<lparr>stdout := stdout v @ [''> ''], alloc_count := Suc (alloc_count v)\<rparr>)"
      by (simp add: printf_def)
    then show ?thesis unfolding m by (simp add: lsh_loop.simps [of v] seq_def)
  qed
  have ex: "main w = Returns EXIT_SUCCESS v2"
    if "lsh_read_line (printf ''> '' v) = Returns line v1 \<and>
        lsh_split_line line v1 = Returns tokens v2 \<and>
        argv tokens = Some (''exit'' # rest)" for line v1 tokens v2 rest
  proof -
    have "lsh_execute (''exit'' # rest) v2 = Returns 0 v2"
      by (simp add: lsh_execute_cases lsh_exit_def)
    with that have "lsh_loop v = Returns () v2" by (simp add: lsh_loop.simps [of v])
    then show ?thesis unfolding m by (simp add: seq_def)
  qed
  have fail: "main w = Exits EXIT_FAILURE (world_of (main w))
      \<and> alloc_count (world_of (main w)) = Suc k
      \<and> last (stderr (world_of (main w))) = alloc_error"
    if k: "alloc_count v \<le> k \<and> k < alloc_count (world_of (main w)) \<and> \<not> alloc_ok v k" for k
  proof (cases "lsh_loop v")
    case (Exits c v')
    with o consider
      (eof) "c = EXIT_SUCCESS"
        "\<forall>k. alloc_count v \<le> k \<and> k < alloc_count v' \<longrightarrow> alloc_ok v k"
    | (failed) "c = EXIT_FAILURE" "last (stderr v') = alloc_error"
        "\<forall>k. alloc_count v \<le> k \<and> k < alloc_count v' - 1 \<longrightarrow> alloc_ok v k"
      unfolding orderly_def by auto
    then show ?thesis
    proof cases
      case eof
      with k wo Exits show ?thesis by auto
    next
      case failed
      have "\<not> k < alloc_count v' - 1" using failed(3) k by blast
      moreover have "k < alloc_count v'" using k wo Exits by simp
      ultimately have "alloc_count v' = Suc k" by simp
      with failed(1,2) Exits show ?thesis unfolding m by (simp add: seq_def)
    qed
  next
    case (Returns x v')
    with o k wo show ?thesis unfolding orderly_def by auto
  next
    case (Hangs v')
    with o k wo show ?thesis unfolding orderly_def by auto
  next
    case (Undefined v')
    with o k wo show ?thesis unfolding orderly_def by auto
  qed
  have ret: "c = EXIT_SUCCESS" if "main w = Returns c w'" for c w'
    using that unfolding m by (cases "lsh_loop v") (simp_all add: seq_def)
  have exits: "(c = EXIT_SUCCESS \<and> stdin w' = []) \<or>
      (c = EXIT_FAILURE \<and> \<not> alloc_ok v (alloc_count w' - 1))"
    if "main w = Exits c w'" for c w'
  proof -
    from that have "lsh_loop v = Exits c w'"
      unfolding m by (cases "lsh_loop v") (simp_all add: seq_def)
    with o show ?thesis unfolding orderly_def by auto
  qed
  from eof ex fail ret exits show ?thesis by blast
qed


lemma turn_reads_line:
  assumes "stdin v = l @ newline # rest" and "newline \<notin> set l" and "NUL \<notin> set l"
    and "length l < 1024" and "length (spec_split l) < 64" and "\<forall>k. alloc_ok v k"
  shows "\<exists>line tokens.
           lsh_read_line (printf ''> '' v) =
             Returns line
               (v\<lparr>stdout := stdout v @ [''> ''], stdin := rest,
                  alloc_count := alloc_count v + 1\<rparr>)
           \<and> lsh_split_line line
               (v\<lparr>stdout := stdout v @ [''> ''], stdin := rest,
                  alloc_count := alloc_count v + 1\<rparr>) =
             Returns tokens
               (v\<lparr>stdout := stdout v @ [''> ''], stdin := rest,
                  alloc_count := alloc_count v + 2\<rparr>)
           \<and> argv tokens = Some (spec_split l)"
proof -
  let ?p = "printf ''> '' v"
  let ?v1 = "v\<lparr>stdout := stdout v @ [''> ''], stdin := rest, alloc_count := alloc_count v + 1\<rparr>"
  have d: "length l div 1024 = 0" using assms(4) by simp
  have e: "length (spec_split l) div 64 = 0" using assms(5) by simp
  have a1: "stdin ?p = l @ newline # rest" using assms(1) by (simp add: printf_def)
  have a2: "length l < 2147482624" using assms(4) by simp
  have a3: "\<forall>k \<le> length l div 1024. alloc_ok ?p (alloc_count ?p + k)"
    using assms(6) by (simp add: printf_def)
  from read_line_returns_buffer [OF a1 assms(2) a2 a3]
  obtain line where
    r: "lsh_read_line ?p =
          Returns line (?p\<lparr>stdin := rest, alloc_count := alloc_count ?p + 1 + length l div 1024\<rparr>)"
    and pre: "take (length l + 1) line = map Some l @ [Some NUL]"
    by blast
  have r': "lsh_read_line ?p = Returns line ?v1"
    using r d by (simp add: printf_def)
  have "takeWhile (\<lambda>x. x \<noteq> NUL) l = l" using assms(3) by (auto simp: takeWhile_eq_all_conv)
  with terminated_take [OF pre] have c: "c_str line = Some l" by (simp add: c_str_def)
  have b2: "length (spec_split l) < 2147483584" using assms(5) by simp
  have b3: "\<forall>k \<le> length (spec_split l) div 64. alloc_ok ?v1 (alloc_count ?v1 + k)"
    using assms(6) by simp
  from split_line_returns [OF c b2 b3]
  obtain tokens where
    s: "lsh_split_line line ?v1 =
          Returns tokens (?v1\<lparr>alloc_count := alloc_count ?v1 + 1 + length (spec_split l) div 64\<rparr>)"
    and a: "argv tokens = Some (spec_split l)"
    by blast
  have s': "lsh_split_line line ?v1 =
      Returns tokens
        (v\<lparr>stdout := stdout v @ [''> ''], stdin := rest, alloc_count := alloc_count v + 2\<rparr>)"
    using s e by simp
  from r' s' a show ?thesis by blast
qed

theorem exit_status_of_shell_witness:
  "exit_status (main (demo\<lparr>stdin := login_input, alloc_ok := always\<rparr>)) = Some EXIT_SUCCESS
   \<and> exit_status
       (main (demo\<lparr>stdin := login_input @ ''cd /tmp'' @ newline # ''exit now'' @ newline # ''ls'',
                    alloc_ok := always\<rparr>)) = Some EXIT_SUCCESS
   \<and> exit_status
       (main (demo\<lparr>stdin := login_input @ ''ls'' @ [newline], alloc_ok := never\<rparr>)) =
       Some EXIT_FAILURE"
proof -
  \<comment> \<open>the input ends at the first prompt\<close>
  let ?w1 = "demo\<lparr>stdin := login_input, alloc_ok := always\<rparr>"
  let ?v1 = "demo\<lparr>stdin := [], alloc_ok := always, stdout := demo_stdout, appended := demo_log\<rparr>"
  have c1: "main_checks ?w1 = Returns () ?v1"
    using demo_main_checks [where x = "[]" and a = always] by simp
  have "stdin ?v1 = [] \<and> alloc_ok ?v1 (alloc_count ?v1)" by (simp add: always_def)
  with exit_status_of_shell [OF c1 iterates.entered]
  have one: "exit_status (main ?w1) = Some EXIT_SUCCESS" by (simp add: exit_status_def)
  \<comment> \<open>a change of directory, then the exit builtin with an argument\<close>
  let ?w2 = "demo\<lparr>stdin := login_input @ ''cd /tmp'' @ newline # ''exit now'' @ newline # ''ls'',
                  alloc_ok := always\<rparr>"
  let ?v2 = "demo\<lparr>stdin := ''cd /tmp'' @ newline # ''exit now'' @ newline # ''ls'',
                  alloc_ok := always, stdout := demo_stdout, appended := demo_log\<rparr>"
  have c2: "main_checks ?w2 = Returns () ?v2"
    using demo_main_checks
      [where x = "''cd /tmp'' @ newline # ''exit now'' @ newline # ''ls''" and a = always]
    by simp
  have t1: "stdin ?v2 = ''cd /tmp'' @ newline # (''exit now'' @ newline # ''ls'')" by simp
  have t2: "newline \<notin> set ''cd /tmp''" "NUL \<notin> set ''cd /tmp''" "length ''cd /tmp'' < 1024"
    by (simp_all add: newline_def NUL_def)
  have sp1: "spec_split ''cd /tmp'' = [''cd'', ''/tmp'']"
    by (simp add: spec_split_def LSH_TOK_DELIM_def)
  have t3: "length (spec_split ''cd /tmp'') < 64" unfolding sp1 by simp
  have t4: "\<forall>k. alloc_ok ?v2 k" by (simp add: always_def)
  let ?v3 = "?v2\<lparr>stdout := stdout ?v2 @ [''> ''], stdin := ''exit now'' @ newline # ''ls'',
                  alloc_count := alloc_count ?v2 + 2\<rparr>"
  from turn_reads_line [OF t1 t2 t3 t4]
  obtain line1 v21 tokens1 where
    r1: "lsh_read_line (printf ''> '' ?v2) = Returns line1 v21"
    and s1: "lsh_split_line line1 v21 = Returns tokens1 ?v3"
    and a1: "argv tokens1 = Some [''cd'', ''/tmp'']"
    unfolding sp1 by blast
  have e1: "lsh_execute [''cd'', ''/tmp''] ?v3 = Returns 1 (?v3\<lparr>cwd := ''/tmp''\<rparr>)"
    by (simp add: lsh_execute_cases lsh_cd_def demo_def demo_chdir_def)
  have it: "iterates ?v2 (?v3\<lparr>cwd := ''/tmp''\<rparr>)"
    by (rule iterates.turn [OF iterates.entered r1 s1 a1 e1]) simp
  have u1: "stdin (?v3\<lparr>cwd := ''/tmp''\<rparr>) = ''exit now'' @ newline # ''ls''" by simp
  have u2: "newline \<notin> set ''exit now''" "NUL \<notin> set ''exit now''" "length ''exit now'' < 1024"
    by (simp_all add: newline_def NUL_def)
  have sp2: "spec_split ''exit now'' = [''exit'', ''now'']"
    by (simp add: spec_split_def LSH_TOK_DELIM_def)
  have u3: "length (spec_split ''exit now'') < 64" unfolding sp2 by simp
  have u4: "\<forall>k. alloc_ok (?v3\<lparr>cwd := ''/tmp''\<rparr>) k" by (simp add: always_def)
  from turn_reads_line [OF u1 u2 u3 u4]
  obtain line2 v31 tokens2 v32 where
    r2: "lsh_read_line (printf ''> '' (?v3\<lparr>cwd := ''/tmp''\<rparr>)) = Returns line2 v31"
    and s2: "lsh_split_line line2 v31 = Returns tokens2 v32"
    and a2: "argv tokens2 = Some (''exit'' # [''now''])"
    unfolding sp2 by blast
  from exit_status_of_shell [OF c2 it] r2 s2 a2
  have "main ?w2 = Returns EXIT_SUCCESS v32" by blast
  then have two: "exit_status (main ?w2) = Some EXIT_SUCCESS" by (simp add: exit_status_def)
  \<comment> \<open>no memory for the line buffer\<close>
  let ?w3 = "demo\<lparr>stdin := login_input @ ''ls'' @ [newline], alloc_ok := never\<rparr>"
  let ?v4 = "demo\<lparr>stdin := ''ls'' @ [newline], alloc_ok := never, stdout := demo_stdout,
                  appended := demo_log\<rparr>"
  have c3: "main_checks ?w3 = Returns () ?v4"
    using demo_main_checks [where x = "''ls'' @ [newline]" and a = never] by simp
  have ac: "alloc_count demo = 0" "stderr demo = []" by (simp_all add: demo_def)
  have "lsh_read_line (printf ''> '' ?v4) =
      Exits EXIT_FAILURE
        (?v4\<lparr>stdout := demo_stdout @ [''> ''], alloc_count := 1, stderr := [alloc_error]\<rparr>)"
    using ac by (simp add: lsh_read_line_def malloc_def never_def printf_def fprintf_stderr_def)
  then have "lsh_loop ?v4 =
      Exits EXIT_FAILURE
        (?v4\<lparr>stdout := demo_stdout @ [''> ''], alloc_count := 1, stderr := [alloc_error]\<rparr>)"
    by (subst lsh_loop.simps) simp
  then have wo: "alloc_count (world_of (main ?w3)) = 1"
    using c3 by (simp add: main_def seq_def)
  have "alloc_count ?v4 \<le> 0 \<and> 0 < alloc_count (world_of (main ?w3)) \<and> \<not> alloc_ok ?v4 0"
    using wo ac by (simp add: never_def)
  with exit_status_of_shell [OF c3 iterates.entered]
  have "main ?w3 = Exits EXIT_FAILURE (world_of (main ?w3))" by blast
  then obtain v5 where "main ?w3 = Exits EXIT_FAILURE v5" ..
  then have three: "exit_status (main ?w3) = Some EXIT_FAILURE"
    by (simp add: exit_status_def)
  from one two three show ?thesis by blast
qed


section \<open>Properties of the checks before the loop\<close>

text \<open>
  None of the checks writes the prompt of the loop: what they write are their fixed
  messages and log lines, which end in a newline.
\<close>

lemma log_line_not_prompt: "log_line what ip_addr w = Some log \<Longrightarrow> log \<noteq> ''> ''"
proof
  assume a: "log_line what ip_addr w = Some log" and b: "log = ''> ''"
  from a obtain t where "log = t @ what @ ip_addr @ [newline]"
    by (auto simp: log_line_def Let_def split: option.splits if_splits)
  then have "last log = newline" by simp
  with b show False by (simp add: newline_def)
qed

lemma store_failed_log_quiet:
  "''> '' \<notin> set (stdout w) \<Longrightarrow> ''> '' \<notin> set (stdout (world_of (store_failed_log log w)))"
  by (simp add: store_failed_log_def printf_def log_error_def)

lemma store_login_log_quiet:
  "''> '' \<notin> set (stdout w) \<Longrightarrow> ''> '' \<notin> set (stdout (world_of (store_login_log log w)))"
  by (simp add: store_login_log_def printf_def log_error_def)

lemma world_of_seq_unit:
  "world_of (seq m (\<lambda>u w2. Returns x w2)) = world_of m"
  "world_of (seq m (\<lambda>u w2. Exits n w2)) = world_of m"
  by (cases m; simp add: seq_def)+

lemma white_list_quiet:
  "''> '' \<notin> set (stdout w) \<Longrightarrow> ''> '' \<notin> set (stdout (world_of (white_list ip_addr w)))"
  using store_failed_log_quiet [of "printf (''NOT ALLOWED IP'' @ [newline]) w"]
  by (auto simp: white_list_def world_of_seq_unit printf_def Let_def split: option.splits)

lemma scan_proc_quiet:
  "''> '' \<notin> set (stdout w) \<Longrightarrow>
     ''> '' \<notin> set (stdout (world_of (scan_proc entries line name logon_count ip_addr w)))"
proof (induction entries arbitrary: line name logon_count)
  case Nil
  then show ?case by simp
next
  case (Cons d_name entries)
  have full: "\<And>log. ''> '' \<notin> set (stdout (world_of (store_failed_log log (printf already_running w))))"
    using Cons.prems by (intro store_failed_log_quiet) (simp add: printf_def already_running_def)
  have und: "''> '' \<notin> set (stdout (printf already_running w))"
    using Cons.prems by (simp add: printf_def already_running_def)
  show ?case
    using Cons.prems Cons.IH full und
    by (auto simp: world_of_seq_unit Let_def split: option.splits list.splits)
qed

lemma check_logon_quiet:
  "''> '' \<notin> set (stdout w) \<Longrightarrow> ''> '' \<notin> set (stdout (world_of (check_logon ip_addr w)))"
  by (simp add: check_logon_def scan_proc_quiet split: option.splits)

lemma read_pw_stdout: "stdout (snd (read_pw n typed w)) = stdout w"
  by (induction n arbitrary: typed w)
     (auto simp: getch_def getchar_def split: prod.splits list.splits)

lemma login_accept_quiet:
  "''> '' \<notin> set (stdout w) \<Longrightarrow> ''> '' \<notin> set (stdout (world_of (login_accept ip_addr w)))"
proof -
  assume a: "''> '' \<notin> set (stdout w)"
  have "\<And>log. log \<noteq> ''> '' \<Longrightarrow>
      ''> '' \<notin> set (stdout (world_of (store_login_log log (printf log (printf login_done w)))))"
    using a by (intro store_login_log_quiet) (simp add: printf_def login_done_def)
  moreover have "''> '' \<notin> set (stdout (printf login_done w))"
    using a by (simp add: printf_def login_done_def)
  ultimately show ?thesis
    by (auto simp: login_accept_def Let_def split: option.splits dest: log_line_not_prompt)
qed

lemma login_reject_quiet:
  "''> '' \<notin> set (stdout w) \<Longrightarrow> ''> '' \<notin> set (stdout (world_of (login_reject ip_addr w)))"
proof -
  assume a: "''> '' \<notin> set (stdout w)"
  have "\<And>log. ''> '' \<notin> set (stdout (world_of (store_failed_log log (printf login_failed w))))"
    using a by (intro store_failed_log_quiet) (simp add: printf_def login_failed_def)
  moreover have "''> '' \<notin> set (stdout (printf login_failed w))"
    using a by (simp add: printf_def login_failed_def)
  ultimately show ?thesis
    by (auto simp: login_reject_def world_of_seq_unit Let_def split: option.splits)
qed


lemma login_quiet:
  assumes "''> '' \<notin> set (stdout w)"
  shows "''> '' \<notin> set (stdout (world_of (login ip_addr w)))"
proof -
  have pw: "\<And>v typed w2. read_pw 11 [] v = (typed, w2) \<Longrightarrow> stdout w2 = stdout v"
    using read_pw_stdout [of 11 "[]"] by (metis snd_conv)
  have acc: "\<And>v. stdout v = stdout w @ [''ID : '', ''PW : ''] \<Longrightarrow>
      ''> '' \<notin> set (stdout (world_of (login_accept ip_addr v)))"
    using assms by (intro login_accept_quiet) simp
  have rej: "\<And>v. stdout v = stdout w @ [''ID : '', ''PW : ''] \<Longrightarrow>
      ''> '' \<notin> set (stdout (world_of (login_reject ip_addr v)))"
    using assms by (intro login_reject_quiet) simp
  show ?thesis
    using assms
    by (auto simp: login_def Let_def printf_def
             split: option.splits prod.splits if_splits
             dest!: pw intro!: acc rej)
qed

lemma main_checks_quiet:
  assumes "''> '' \<notin> set (stdout w)"
  shows "''> '' \<notin> set (stdout (world_of (main_checks w)))"
proof (cases "client_ip w")
  case None
  with assms show ?thesis by (simp add: main_checks_def)
next
  case (Some ip)
  show ?thesis
  proof (cases "white_list ip w")
    case wl: (Returns r w1)
    have q1: "''> '' \<notin> set (stdout w1)" using white_list_quiet [OF assms, of ip] wl by simp
    show ?thesis
    proof (cases "r = 1")
      case True
      with Some wl q1 show ?thesis by (simp add: main_checks_def seq_def)
    next
      case False
      show ?thesis
      proof (cases "check_logon ip w1")
        case cl: (Returns r2 w2)
        have q2: "''> '' \<notin> set (stdout w2)" using check_logon_quiet [OF q1, of ip] cl by simp
        from login_quiet [OF q2, of ip] Some wl False cl q2 show ?thesis
          by (simp add: main_checks_def seq_def)
      next
        case cl: (Exits c w2)
        with check_logon_quiet [OF q1, of ip] Some wl False show ?thesis
          by (simp add: main_checks_def seq_def)
      next
        case cl: (Hangs w2)
        with check_logon_quiet [OF q1, of ip] Some wl False show ?thesis
          by (simp add: main_checks_def seq_def)
      next
        case cl: (Undefined w2)
        with check_logon_quiet [OF q1, of ip] Some wl False show ?thesis
          by (simp add: main_checks_def seq_def)
      qed
    qed
  next
    case wl: (Exits c w1)
    with white_list_quiet [OF assms, of ip] Some show ?thesis
      by (simp add: main_checks_def seq_def)
  next
    case wl: (Hangs w1)
    with white_list_quiet [OF assms, of ip] Some show ?thesis
      by (simp add: main_checks_def seq_def)
  next
    case wl: (Undefined w1)
    with white_list_quiet [OF assms, of ip] Some show ?thesis
      by (simp add: main_checks_def seq_def)
  qed
qed

lemma main_checks_returns:
  assumes "main_checks w = Returns u v0"
  shows "\<exists>ip w1 r w2.
           client_ip w = Some ip \<and> white_list ip w = Returns 0 w1 \<and>
           check_logon ip w1 = Returns r w2 \<and> r \<noteq> 1 \<and> login ip w2 = Returns () v0"
proof -
  from assms obtain ip where ip: "client_ip w = Some ip"
    by (auto simp: main_checks_def split: option.splits)
  from assms ip obtain r1 w1 where wl: "white_list ip w = Returns r1 w1" and r1: "r1 \<noteq> 1"
    by (cases "white_list ip w") (auto simp: main_checks_def seq_def split: if_splits)
  have "r1 = 0 \<or> r1 = 1"
    using wl
    by (auto simp: white_list_def seq_def Let_def store_failed_log_def
             split: option.splits if_splits)
  with r1 have z: "r1 = 0" by simp
  from assms ip wl r1 obtain r w2 where cl: "check_logon ip w1 = Returns r w2" and r: "r \<noteq> 1"
    by (cases "check_logon ip w1") (auto simp: main_checks_def seq_def split: if_splits)
  from assms ip wl r1 cl r have "login ip w2 = Returns () v0"
    by (simp add: main_checks_def seq_def)
  with ip wl z cl r show ?thesis by blast
qed

lemma white_list_results:
  assumes "white_list ip w = Returns r w1"
  shows "(r = 0 \<or> r = 1)
       \<and> (r = 0 \<longleftrightarrow>
            (\<exists>content rows. files w ''list'' = Some content \<and>
               read_list content [] = Some rows \<and> ip \<in> set rows))"
  using assms
  by (auto simp: white_list_def seq_def Let_def store_failed_log_def
           split: option.splits if_splits)

lemma login_exits:
  assumes "login ip w = Exits c w'"
  shows "c = 0"
proof -
  have acc: "\<And>v. login_accept ip v = Exits c w' \<Longrightarrow> c = 0"
    by (auto simp: login_accept_def store_login_log_def Let_def split: option.splits if_splits)
  have rej: "\<And>v. login_reject ip v = Exits c w' \<Longrightarrow> c = 0"
    by (auto simp: login_reject_def store_failed_log_def seq_def Let_def
             split: option.splits if_splits)
  from assms show ?thesis
    by (auto simp: login_def Let_def split: option.splits prod.splits if_splits dest: acc rej)
qed

text \<open>
  C9.  In a run of \<^verbatim>\<open>main\<close> the prompt of the loop is written only after the address
  of the client was found in the list file, the count of running shells did not answer
  1, and \<^verbatim>\<open>login\<close> returned, in this order, each in the world the one before left.
  When \<^verbatim>\<open>white_list\<close> answers 1, when \<^verbatim>\<open>check_logon\<close> answers 1, or when \<^verbatim>\<open>login\<close>
  ends the process, which it does with status 0, the process is over with no prompt
  written: the loop has not started.
\<close>

theorem loop_only_after_checks:
  assumes "''> '' \<notin> set (stdout w)"
  shows "(''> '' \<in> set (stdout (world_of (main w))) \<longrightarrow>
            (\<exists>ip w1 r w2 v0 content rows.
               client_ip w = Some ip \<and>
               white_list ip w = Returns 0 w1 \<and>
               files w ''list'' = Some content \<and> read_list content [] = Some rows \<and>
               ip \<in> set rows \<and>
               check_logon ip w1 = Returns r w2 \<and> r \<noteq> 1 \<and>
               login ip w2 = Returns () v0 \<and>
               ''> '' \<notin> set (stdout v0) \<and>
               main w = seq (lsh_loop v0) (\<lambda>u w4. Returns EXIT_SUCCESS w4)))
       \<and> (\<forall>ip w1. client_ip w = Some ip \<and> white_list ip w = Returns 1 w1 \<longrightarrow>
            main w = Exits 0 w1 \<and> ''> '' \<notin> set (stdout w1))
       \<and> (\<forall>ip r w1 w2. client_ip w = Some ip \<and> white_list ip w = Returns r w1 \<and> r \<noteq> 1 \<and>
            check_logon ip w1 = Returns 1 w2 \<longrightarrow>
            main w = Exits 0 w2 \<and> ''> '' \<notin> set (stdout w2))
       \<and> (\<forall>ip r w1 r2 w2 c w3. client_ip w = Some ip \<and> white_list ip w = Returns r w1 \<and> r \<noteq> 1 \<and>
            check_logon ip w1 = Returns r2 w2 \<and> r2 \<noteq> 1 \<and> login ip w2 = Exits c w3 \<longrightarrow>
            main w = Exits 0 w3 \<and> ''> '' \<notin> set (stdout w3))"
proof (intro conjI allI impI)
  assume p: "''> '' \<in> set (stdout (world_of (main w)))"
  have q: "''> '' \<notin> set (stdout (world_of (main_checks w)))"
    using assms by (rule main_checks_quiet)
  obtain u v0 where ret: "main_checks w = Returns u v0"
    using p q by (cases "main_checks w") (auto simp: main_def seq_def)
  from main_checks_returns [OF ret]
  obtain ip w1 r w2 where
    f: "client_ip w = Some ip" "white_list ip w = Returns 0 w1"
       "check_logon ip w1 = Returns r w2" "r \<noteq> 1" "login ip w2 = Returns () v0"
    by blast
  from white_list_results [OF f(2)]
  obtain content rows where
    g: "files w ''list'' = Some content" "read_list content [] = Some rows" "ip \<in> set rows"
    by auto
  have "''> '' \<notin> set (stdout v0)" using q ret by simp
  moreover have "main w = seq (lsh_loop v0) (\<lambda>u w4. Returns EXIT_SUCCESS w4)"
    using ret by (simp add: main_def seq_def)
  ultimately show "\<exists>ip w1 r w2 v0 content rows.
      client_ip w = Some ip \<and> white_list ip w = Returns 0 w1 \<and>
      files w ''list'' = Some content \<and> read_list content [] = Some rows \<and> ip \<in> set rows \<and>
      check_logon ip w1 = Returns r w2 \<and> r \<noteq> 1 \<and> login ip w2 = Returns () v0 \<and>
      ''> '' \<notin> set (stdout v0) \<and>
      main w = seq (lsh_loop v0) (\<lambda>u w4. Returns EXIT_SUCCESS w4)"
    using f g by blast
next
  fix ip w1
  assume a: "client_ip w = Some ip \<and> white_list ip w = Returns 1 w1"
  then show "main w = Exits 0 w1" by (simp add: main_def main_checks_def seq_def)
  from a white_list_quiet [OF assms, of ip] show "''> '' \<notin> set (stdout w1)" by simp
next
  fix ip r w1 w2
  assume a: "client_ip w = Some ip \<and> white_list ip w = Returns r w1 \<and> r \<noteq> 1 \<and>
    check_logon ip w1 = Returns 1 w2"
  then show "main w = Exits 0 w2" by (simp add: main_def main_checks_def seq_def)
  from a white_list_quiet [OF assms, of ip] have "''> '' \<notin> set (stdout w1)" by simp
  from check_logon_quiet [OF this, of ip] a show "''> '' \<notin> set (stdout w2)" by simp
next
  fix ip r w1 r2 w2 c w3
  assume a: "client_ip w = Some ip \<and> white_list ip w = Returns r w1 \<and> r \<noteq> 1 \<and>
    check_logon ip w1 = Returns r2 w2 \<and> r2 \<noteq> 1 \<and> login ip w2 = Exits c w3"
  then have "c = 0" using login_exits by blast
  with a show "main w = Exits 0 w3" by (simp add: main_def main_checks_def seq_def)
  from a white_list_quiet [OF assms, of ip] have "''> '' \<notin> set (stdout w1)" by simp
  from check_logon_quiet [OF this, of ip] a have "''> '' \<notin> set (stdout w2)" by simp
  from login_quiet [OF this, of ip] a show "''> '' \<notin> set (stdout w3)" by simp
qed


theorem loop_only_after_checks_witness:
  "''> '' \<notin> set (stdout (demo\<lparr>stdin := login_input @ ''exit'' @ [newline], alloc_ok := always\<rparr>))
   \<and> ''> '' \<in> set (stdout (world_of
        (main (demo\<lparr>stdin := login_input @ ''exit'' @ [newline], alloc_ok := always\<rparr>))))
   \<and> (\<exists>w1 r w2 v0.
        white_list ''10.0.0.5'' (demo\<lparr>stdin := login_input @ ''exit'' @ [newline], alloc_ok := always\<rparr>) =
          Returns 0 w1 \<and>
        check_logon ''10.0.0.5'' w1 = Returns r w2 \<and> r \<noteq> 1 \<and>
        login ''10.0.0.5'' w2 = Returns () v0)
   \<and> main (demo\<lparr>environ := stranger_environ\<rparr>) =
       Exits 0
         (demo\<lparr>environ := stranger_environ,
               stdout := [''NOT ALLOWED IP'' @ [newline]],
               appended := [(''failed_log'',
                             ''Fri Oct 30 12:00:00 2026 NOT ALLOWED IP 10.9.9.9'' @ [newline])]\<rparr>)
   \<and> main (demo\<lparr>stdin := ''root'' @ newline # ''px'' @ newline # ''ls'' @ [newline]\<rparr>) =
       Exits 0
         (demo\<lparr>stdin := ''ls'' @ [newline],
               stdout := [''ID : '', ''PW : '', login_failed],
               appended := [(''failed_log'',
                             ''Fri Oct 30 12:00:00 2026 Login failed at 10.0.0.5'' @ [newline])]\<rparr>)"
proof -
  \<comment> \<open>the client on the list with the right password\<close>
  let ?w = "demo\<lparr>stdin := login_input @ ''exit'' @ [newline], alloc_ok := always\<rparr>"
  let ?v0 = "demo\<lparr>stdin := ''exit'' @ [newline], alloc_ok := always, stdout := demo_stdout,
                  appended := demo_log\<rparr>"
  have quiet: "''> '' \<notin> set (stdout ?w)" by (simp add: demo_def)
  have c: "main_checks ?w = Returns () ?v0"
    using demo_main_checks [where x = "''exit'' @ [newline]" and a = always] by simp
  have t1: "stdin ?v0 = ''exit'' @ newline # []" by simp
  have t2: "newline \<notin> set ''exit''" "NUL \<notin> set ''exit''" "length ''exit'' < 1024"
    by (simp_all add: newline_def NUL_def)
  have sp: "spec_split ''exit'' = [''exit'']" by (simp add: spec_split_def LSH_TOK_DELIM_def)
  have t3: "length (spec_split ''exit'') < 64" unfolding sp by simp
  have t4: "\<forall>k. alloc_ok ?v0 k" by (simp add: always_def)
  let ?v2 = "?v0\<lparr>stdout := stdout ?v0 @ [''> ''], stdin := [], alloc_count := alloc_count ?v0 + 2\<rparr>"
  from turn_reads_line [OF t1 t2 t3 t4]
  obtain line v1 tokens where
    r: "lsh_read_line (printf ''> '' ?v0) = Returns line v1"
    and s: "lsh_split_line line v1 = Returns tokens ?v2"
    and a: "argv tokens = Some [''exit'']"
    unfolding sp by blast
  have "lsh_execute [''exit''] ?v2 = Returns 0 ?v2"
    by (simp add: lsh_execute_cases lsh_exit_def)
  with r s a have "lsh_loop ?v0 = Returns () ?v2"
    by (subst lsh_loop.simps) simp
  with c have "main ?w = Returns EXIT_SUCCESS ?v2" by (simp add: main_def seq_def)
  then have shown: "''> '' \<in> set (stdout (world_of (main ?w)))" by simp
  note after = loop_only_after_checks [OF quiet, THEN conjunct1, rule_format, OF shown]
  from after obtain ip w1 r w2 v0 where
    f: "client_ip ?w = Some ip" "white_list ip ?w = Returns 0 w1"
       "check_logon ip w1 = Returns r w2" "r \<noteq> 1" "login ip w2 = Returns () v0"
    by (elim exE conjE)
  have "client_ip ?w = Some ''10.0.0.5''" by (rule demo_client_ip)
  with f(1) have "ip = ''10.0.0.5''" by simp
  with f(2-5) have passed: "\<exists>w1 r w2 v0.
      white_list ''10.0.0.5'' ?w = Returns 0 w1 \<and>
      check_logon ''10.0.0.5'' w1 = Returns r w2 \<and> r \<noteq> 1 \<and>
      login ''10.0.0.5'' w2 = Returns () v0"
    by (intro exI [of _ w1] exI [of _ r] exI [of _ w2] exI [of _ v0]) simp
  \<comment> \<open>a client that is not on the list\<close>
  let ?s = "demo\<lparr>environ := stranger_environ\<rparr>"
  let ?s1 = "demo\<lparr>environ := stranger_environ,
                   stdout := [''NOT ALLOWED IP'' @ [newline]],
                   appended := [(''failed_log'',
                                 ''Fri Oct 30 12:00:00 2026 NOT ALLOWED IP 10.9.9.9'' @ [newline])]\<rparr>"
  have q2: "''> '' \<notin> set (stdout ?s)" by (simp add: demo_def)
  have ip2: "client_ip ?s = Some ''10.9.9.9''"
    by (simp add: client_ip_def stranger_environ_def scan_words_unfold scan_word_def
          isspace_def BUF_SIZE_def Let_def)
  have wl2: "white_list ''10.9.9.9'' ?s = Returns 1 ?s1"
    by (simp add: white_list_def demo_def demo_files_def read_list.simps fgets_def BUF_SIZE_def
          newline_def NUL_def c_string_def strip_last_def Let_def printf_def log_line_def
          cur_time_def store_failed_log_def demo_append_ok_def seq_def)
  note deny = loop_only_after_checks [OF q2, THEN conjunct2, THEN conjunct1, rule_format]
  from deny [OF conjI [OF ip2 wl2]]
  have denied: "main ?s = Exits 0 ?s1" by (rule conjunct1)
  \<comment> \<open>the client on the list with a wrong password\<close>
  let ?p = "demo\<lparr>stdin := ''root'' @ newline # ''px'' @ newline # ''ls'' @ [newline]\<rparr>"
  let ?p3 = "demo\<lparr>stdin := ''ls'' @ [newline],
                   stdout := [''ID : '', ''PW : '', login_failed],
                   appended := [(''failed_log'',
                                 ''Fri Oct 30 12:00:00 2026 Login failed at 10.0.0.5'' @ [newline])]\<rparr>"
  have pw: "demo\<lparr>stdin := ''root'' @ newline # ''px'' @ newline # ''ls'' @ [newline],
                     alloc_ok := always\<rparr> = ?p"
    by (simp add: demo_def)
  have q3: "''> '' \<notin> set (stdout ?p)" by (simp add: demo_def)
  have ip3: "client_ip ?p = Some ''10.0.0.5''"
    using demo_client_ip
      [where x = "''root'' @ newline # ''px'' @ newline # ''ls'' @ [newline]" and a = always]
    unfolding pw .
  have wl3: "white_list ''10.0.0.5'' ?p = Returns 0 ?p"
    using demo_white_list
      [where x = "''root'' @ newline # ''px'' @ newline # ''ls'' @ [newline]" and a = always]
    unfolding pw .
  have cl3: "check_logon ''10.0.0.5'' ?p = Returns 0 ?p"
    using demo_check_logon
      [where x = "''root'' @ newline # ''px'' @ newline # ''ls'' @ [newline]" and a = always]
    unfolding pw .
  have lg3: "login ''10.0.0.5'' ?p = Exits 0 ?p3"
    by (simp add: login_def demo_def demo_files_def fgets_def BUF_SIZE_def
          newline_def NUL_def c_string_def scan_account_def scan_word_def isspace_def Let_def
          strip_last_def printf_def getch_def getchar_def array_string_def enc_pw_def
          signed_char_def append_decimal_def decimal_def digits.simps login_reject_def
          log_line_def cur_time_def store_failed_log_def demo_append_ok_def read_pw_unfold
          seq_def)
  have ne: "(0::int) \<noteq> 1" by simp
  note reject = loop_only_after_checks
    [OF q3, THEN conjunct2, THEN conjunct2, THEN conjunct2, rule_format]
  from reject [OF conjI [OF ip3 conjI [OF wl3 conjI [OF ne conjI [OF cl3 conjI [OF ne lg3]]]]]]
  have rejected: "main ?p = Exits 0 ?p3" by (rule conjunct1)
  from quiet shown passed denied rejected show ?thesis by (intro conjI)
qed

end
